theory Spec2Isabelle
  imports Complex_Main
begin

section \<open>Data model (board.h)\<close>

text \<open>
  The rule engine of the Go program: the board, groups and liberties, captures, ko,
  suicide, scoring and the undo/redo history of \<^verbatim>\<open>board.c\<close>, followed by the
  parts of the search engine of \<^verbatim>\<open>ai.c\<close> that replay moves through it.

  A \<^verbatim>\<open>Stone\<close> is the C enum, a \<^verbatim>\<open>Position\<close> the C struct of two ints. The grid
  \<^verbatim>\<open>Stone board[BOARD_SIZE][BOARD_SIZE]\<close> is a function from positions to stones; the
  cell \<^verbatim>\<open>board[y][x]\<close> is the value at \<open>\<lparr>px = x, py = y\<rparr>\<close>. Every read and write of
  the source is guarded by a bounds check or ranges over \<open>0 .. BOARD_SIZE - 1\<close>, so the
  values outside the board are never looked at. The local arrays
  \<^verbatim>\<open>bool visited[BOARD_SIZE][BOARD_SIZE]\<close> are functions to \<open>bool\<close> in the same way, and
  an output array with its length (\<^verbatim>\<open>group\<close>, \<^verbatim>\<open>groupSize\<close>) is a list.
  The C \<^verbatim>\<open>int\<close> counters are modelled as unbounded integers: they count stones on a
  19 by 19 board and moves of one game.
\<close>

datatype Stone = EMPTY | BLACK | WHITE

record Position =
  px :: int
  py :: int

type_synonym Grid = "Position \<Rightarrow> Stone"

type_synonym Marks = "Position \<Rightarrow> bool"

definition BOARD_SIZE :: int where
  "BOARD_SIZE = 19"

text \<open>
  One node of the doubly linked history list. The links \<^verbatim>\<open>prev\<close> and \<^verbatim>\<open>next\<close> are
  represented by the position of the node in the lists of the board record below.
\<close>

record BoardHistory =
  h_board :: Grid
  h_lastMove :: Position
  h_blackCaptures :: int
  h_whiteCaptures :: int
  h_blackLiberties :: int
  h_whiteLiberties :: int

text \<open>
  The board. The history list is kept as the node \<open>current\<close> points to, the chain
  reached from it through \<^verbatim>\<open>prev\<close> (nearest node first; the head \<^verbatim>\<open>history\<close> is its
  last element) and the chain reached through \<^verbatim>\<open>next\<close> (nearest first). Allocation
  is taken to succeed, so from \<^verbatim>\<open>initBoard\<close> on \<^verbatim>\<open>current\<close> is never NULL.
\<close>

record Board =
  board :: Grid
  currentPlayer :: Stone
  lastMove :: Position
  koPosition :: Position
  koActive :: bool
  blackCaptures :: int
  whiteCaptures :: int
  blackLiberties :: int
  whiteLiberties :: int
  prev_chain :: "BoardHistory list"
  current :: BoardHistory
  next_chain :: "BoardHistory list"

section \<open>Groups and liberties (board.c)\<close>

definition DX :: "int list" where
  "DX = [-1, 0, 1, 0]"

definition DY :: "int list" where
  "DY = [0, -1, 0, 1]"

definition isValidPosition :: "Position \<Rightarrow> bool" where
  "isValidPosition pos \<longleftrightarrow>
     px pos \<ge> 0 \<and> px pos < BOARD_SIZE \<and> py pos \<ge> 0 \<and> py pos < BOARD_SIZE"

definition createHistoryNode :: "Board \<Rightarrow> BoardHistory" where
  "createHistoryNode b =
     \<lparr>h_board = board b, h_lastMove = lastMove b,
      h_blackCaptures = blackCaptures b, h_whiteCaptures = whiteCaptures b,
      h_blackLiberties = blackLiberties b, h_whiteLiberties = whiteLiberties b\<rparr>"

definition noPosition :: Position where
  "noPosition = \<lparr>px = -1, py = -1\<rparr>"

definition emptyGrid :: Grid where
  "emptyGrid = (\<lambda>_. EMPTY)"

definition noMarks :: Marks where
  "noMarks = (\<lambda>_. False)"

text \<open>
  \<^verbatim>\<open>initBoard\<close>: the empty grid, Black to move, no last move, no ko, all counters
  zero, and a history of one node, the snapshot of this board.
\<close>

definition initBoard :: Board where
  "initBoard =
     \<lparr>board = emptyGrid, currentPlayer = BLACK,
      lastMove = noPosition, koPosition = noPosition, koActive = False,
      blackCaptures = 0, whiteCaptures = 0,
      blackLiberties = 0, whiteLiberties = 0,
      prev_chain = [],
      current = \<lparr>h_board = emptyGrid, h_lastMove = noPosition,
                 h_blackCaptures = 0, h_whiteCaptures = 0,
                 h_blackLiberties = 0, h_whiteLiberties = 0\<rparr>,
      next_chain = []\<rparr>"

text \<open>
  \<^verbatim>\<open>dfsMarkGroup\<close> marks the start position, appends it to the group and then
  visits the four neighbours in the order of \<^verbatim>\<open>DX\<close>, \<^verbatim>\<open>DY\<close>; the \<^verbatim>\<open>for\<close> loop over
  the directions is \<open>dfsNeighbours\<close>, which threads the marks and the group through
  the recursive calls as the C code does through its pointers.
\<close>

function dfsMarkGroup :: "Grid \<Rightarrow> Position \<Rightarrow> Stone \<Rightarrow> Marks \<times> Position list \<Rightarrow> Marks \<times> Position list"
  and dfsNeighbours :: "Grid \<Rightarrow> Position \<Rightarrow> Stone \<Rightarrow> (int \<times> int) list \<Rightarrow> Marks \<times> Position list \<Rightarrow> Marks \<times> Position list"
where
  "dfsMarkGroup g pos color (visited, grp) =
     dfsNeighbours g pos color (zip DX DY) (visited(pos := True), grp @ [pos])"
| "dfsNeighbours g pos color [] st = st"
| "dfsNeighbours g pos color (d # ds) (visited, grp) =
     (let next = \<lparr>px = px pos + fst d, py = py pos + snd d\<rparr> in
      if isValidPosition next \<and> \<not> visited next \<and> g next = color
      then dfsNeighbours g pos color ds (dfsMarkGroup g next color (visited, grp))
      else dfsNeighbours g pos color ds (visited, grp))"
  by pat_completeness auto

definition unvisited :: "Marks \<Rightarrow> nat" where
  "unvisited visited = card {p. isValidPosition p \<and> \<not> visited p}"

lemma finite_valid: "finite {p. isValidPosition p}"
proof -
  have "{p. isValidPosition p}
      \<subseteq> (\<lambda>(a, b). \<lparr>px = a, py = b\<rparr>) ` ({0..<BOARD_SIZE} \<times> {0..<BOARD_SIZE})"
  proof
    fix p assume "p \<in> {p. isValidPosition p}"
    then have "(px p, py p) \<in> {0..<BOARD_SIZE} \<times> {0..<BOARD_SIZE}"
      by (simp add: isValidPosition_def)
    moreover have "p = (\<lambda>(a, b). \<lparr>px = a, py = b\<rparr>) (px p, py p)" by simp
    ultimately show "p \<in> (\<lambda>(a, b). \<lparr>px = a, py = b\<rparr>) ` ({0..<BOARD_SIZE} \<times> {0..<BOARD_SIZE})"
      by (rule image_eqI[rotated])
  qed
  then show ?thesis by (rule finite_subset) simp
qed

lemma unvisited_mono: "(\<And>p. v p \<Longrightarrow> v' p) \<Longrightarrow> unvisited v' \<le> unvisited v"
  unfolding unvisited_def by (rule card_mono) (use finite_valid in auto)

lemma unvisited_mark:
  "isValidPosition q \<Longrightarrow> \<not> v q \<Longrightarrow> unvisited (v(q := True)) < unvisited v"
  unfolding unvisited_def by (rule psubset_card_mono) (use finite_valid in auto)

lemma dfs_dom_mono:
  "dfsMarkGroup_dfsNeighbours_dom (Inl (g, pos, c, st)) \<Longrightarrow>
     fst st p \<Longrightarrow> fst (dfsMarkGroup g pos c st) p"
  "dfsMarkGroup_dfsNeighbours_dom (Inr (g, pos, c, ds, st)) \<Longrightarrow>
     fst st p \<Longrightarrow> fst (dfsNeighbours g pos c ds st) p"
proof (induct g pos c st and g pos c ds st rule: dfsMarkGroup_dfsNeighbours.pinduct)
  case (1 g pos color visited grp)
  then show ?case by (simp add: dfsMarkGroup.psimps)
next
  case (2 g pos color st)
  then show ?case by (simp add: dfsNeighbours.psimps)
next
  case (3 g pos color d ds visited grp)
  then show ?case by (simp add: dfsNeighbours.psimps Let_def)
qed

termination dfsMarkGroup
proof (relation "inv_image (less_than <*lex*> less_than)
    (\<lambda>s. case s of
        Inl (g, pos, c, (v, grp)) \<Rightarrow> (unvisited (v(pos := True)), 5::nat)
      | Inr (g, pos, c, ds, (v, grp)) \<Rightarrow> (unvisited v, length ds))", goal_cases)
  case 1
  then show ?case by (intro wf_inv_image wf_lex_prod wf_less_than)
next
  case (2 g pos color visited grp)
  then show ?case by (simp add: DX_def DY_def)
next
  case (3 g pos color d ds visited grp nxt)
  then show ?case by (simp add: unvisited_mark)
next
  case (4 g pos color d ds visited grp nxt)
  have "unvisited (fst (dfsMarkGroup g nxt color (visited, grp))) \<le> unvisited visited"
    by (rule unvisited_mono) (use 4 dfs_dom_mono(1)[OF 4(3)] in simp)
  then show ?case by (auto simp: less_Suc_eq_le split: prod.splits)
next
  case (5 g pos color d ds visited grp nxt)
  then show ?case by simp
qed

text \<open>
  \<^verbatim>\<open>calculateGroupLiberties\<close>: for every stone of the group and every direction, an
  empty neighbour on the board that was not counted yet is marked and counted.
\<close>

definition libertyStep :: "Grid \<Rightarrow> Position \<Rightarrow> int \<times> int \<Rightarrow> Marks \<times> int \<Rightarrow> Marks \<times> int" where
  "libertyStep g pos d st =
     (case st of (libertyVisited, liberties) \<Rightarrow>
        let next = \<lparr>px = px pos + fst d, py = py pos + snd d\<rparr> in
        if isValidPosition next \<and> g next = EMPTY \<and> \<not> libertyVisited next
        then (libertyVisited(next := True), liberties + 1)
        else (libertyVisited, liberties))"

definition calculateGroupLiberties :: "Grid \<Rightarrow> Position list \<Rightarrow> int" where
  "calculateGroupLiberties g grp =
     snd (fold (\<lambda>pos. fold (libertyStep g pos) (zip DX DY)) grp (noMarks, 0))"

definition hasLiberty :: "Board \<Rightarrow> Position \<Rightarrow> bool" where
  "hasLiberty b pos =
     (if \<not> isValidPosition pos then False
      else let color = board b pos in
        if color = EMPTY then True
        else let (visited, grp) = dfsMarkGroup (board b) pos color (noMarks, [])
             in calculateGroupLiberties (board b) grp > 0)"



section \<open>Captures, ko, suicide and legality (board.c)\<close>

text \<open>
  \<^verbatim>\<open>captureDeadStones\<close> scans the board row by row. The body of the two loops, for
  the cell \<^verbatim>\<open>board[y][x]\<close>, is \<open>captureCell\<close>; its state is the grid, the ko position,
  the marks and the number of stones captured so far.
\<close>

definition removeGroup :: "Position list \<Rightarrow> Grid \<Rightarrow> Grid" where
  "removeGroup grp g = fold (\<lambda>p g'. g'(p := EMPTY)) grp g"

definition captureCell :: "Stone \<Rightarrow> int \<Rightarrow> int \<Rightarrow> Grid \<times> Position \<times> Marks \<times> int \<Rightarrow> Grid \<times> Position \<times> Marks \<times> int" where
  "captureCell color y x st =
     (case st of (g, ko, visited, capturedCount) \<Rightarrow>
        let pos = \<lparr>px = x, py = y\<rparr> in
        if g pos = color \<and> \<not> visited pos then
          let (visited', grp) = dfsMarkGroup g pos color (visited, []) in
          if calculateGroupLiberties g grp = 0
          then (removeGroup grp g,
                if length grp = 1 then grp ! 0 else noPosition,
                visited',
                capturedCount + int (length grp))
          else (g, ko, visited', capturedCount)
        else (g, ko, visited, capturedCount))"

definition captureScan :: "Stone \<Rightarrow> Grid \<times> Position \<times> Marks \<times> int \<Rightarrow> Grid \<times> Position \<times> Marks \<times> int" where
  "captureScan color st =
     fold (\<lambda>y. fold (\<lambda>x. captureCell color y x) [0..BOARD_SIZE - 1]) [0..BOARD_SIZE - 1] st"

definition captureDeadStones :: "Board \<Rightarrow> Stone \<Rightarrow> Board \<times> int" where
  "captureDeadStones b color =
     (case captureScan color (board b, koPosition b, noMarks, 0) of
        (g, ko, visited, capturedCount) \<Rightarrow>
          let b1 = b\<lparr>board := g, koPosition := ko\<rparr>;
              b2 = (if color = BLACK then b1\<lparr>whiteCaptures := whiteCaptures b1 + capturedCount\<rparr>
                    else if color = WHITE then b1\<lparr>blackCaptures := blackCaptures b1 + capturedCount\<rparr>
                    else b1)
          in (b2, capturedCount))"

definition isKoMove :: "Board \<Rightarrow> Position \<Rightarrow> bool" where
  "isKoMove b pos =
     (if \<not> koActive b then False
      else px pos = px (koPosition b) \<and> py pos = py (koPosition b))"

text \<open>
  \<^verbatim>\<open>isSuicideMove\<close> writes the stone into the grid, asks \<^verbatim>\<open>hasLiberty\<close> and writes
  the old value back; the board it was given is unchanged when it returns, so the
  model returns the answer only.
\<close>

definition isSuicideMove :: "Board \<Rightarrow> Position \<Rightarrow> bool" where
  "isSuicideMove b pos =
     (if \<not> isValidPosition pos \<or> board b pos \<noteq> EMPTY then False
      else let hasLib = hasLiberty (b\<lparr>board := (board b)(pos := currentPlayer b)\<rparr>) pos
           in \<not> hasLib)"

definition isValidMove :: "Board \<Rightarrow> Position \<Rightarrow> bool" where
  "isValidMove b pos =
     (if \<not> isValidPosition pos then False
      else if board b pos \<noteq> EMPTY then False
      else if isKoMove b pos then False
      else if isSuicideMove b pos then False
      else True)"


subsection \<open>What one scan of \<^verbatim>\<open>captureDeadStones\<close> does\<close>

lemma dfs_prefix:
  "\<exists>rest. snd (dfsMarkGroup g pos c st) = snd st @ pos # rest"
  "\<exists>rest. snd (dfsNeighbours g pos c ds st) = snd st @ rest"
proof (induct g pos c st and g pos c ds st rule: dfsMarkGroup_dfsNeighbours.induct)
  case (1 g pos color visited grp)
  then show ?case by auto
next
  case (2 g pos color st)
  then show ?case by simp
next
  case (3 g pos color d ds visited grp)
  then show ?case by (auto simp: Let_def)
qed

lemma removeGroup_apply: "removeGroup grp g q = (if q \<in> set grp then EMPTY else g q)"
  unfolding removeGroup_def by (induction grp arbitrary: g) auto

definition stones :: "Grid \<Rightarrow> nat" where
  "stones g = card {p. isValidPosition p \<and> g p \<noteq> EMPTY}"

lemma stones_less:
  assumes "isValidPosition q" "g q \<noteq> EMPTY" "g' q = EMPTY"
    and "\<And>p. g' p \<noteq> EMPTY \<Longrightarrow> g p \<noteq> EMPTY"
  shows "stones g' < stones g"
  unfolding stones_def
proof (rule psubset_card_mono)
  show "finite {p. isValidPosition p \<and> g p \<noteq> EMPTY}"
    using finite_valid by simp
  show "{p. isValidPosition p \<and> g' p \<noteq> EMPTY} \<subset> {p. isValidPosition p \<and> g p \<noteq> EMPTY}"
    using assms by auto
qed

lemma fold_invariant:
  "P s \<Longrightarrow> (\<And>a s. a \<in> set xs \<Longrightarrow> P s \<Longrightarrow> P (f a s)) \<Longrightarrow> P (fold f xs s)"
  by (induction xs arbitrary: s) auto

definition captureInv :: "Grid \<Rightarrow> Position \<Rightarrow> Stone \<Rightarrow> Grid \<times> Position \<times> Marks \<times> int \<Rightarrow> bool" where
  "captureInv g0 ko0 color st =
     (case st of (g, ko, visited, n) \<Rightarrow>
        0 \<le> n \<and> (\<forall>p. g p \<noteq> EMPTY \<longrightarrow> g p = g0 p) \<and>
        (n = 0 \<longrightarrow> g = g0 \<and> ko = ko0) \<and>
        (n = 1 \<longrightarrow> (\<exists>p. isValidPosition p \<and> g0 p = color \<and> g = g0(p := EMPTY) \<and> ko = p)) \<and>
        (0 < n \<longrightarrow> (\<exists>q. isValidPosition q \<and> g0 q = color \<and> g q = EMPTY)))"

lemma captureCell_inv:
  assumes inv: "captureInv g0 ko0 color st" and c: "color \<noteq> EMPTY"
    and x: "0 \<le> x" "x < BOARD_SIZE" and y: "0 \<le> y" "y < BOARD_SIZE"
  shows "captureInv g0 ko0 color (captureCell color y x st)"
proof -
  obtain g ko visited n where st: "st = (g, ko, visited, n)" by (cases st)
  let ?pos = "\<lparr>px = x, py = y\<rparr>"
  have valid: "isValidPosition ?pos" using x y by (simp add: isValidPosition_def)
  show ?thesis
  proof (cases "g ?pos = color \<and> \<not> visited ?pos")
    case False
    then show ?thesis using inv by (auto simp: captureCell_def st)
  next
    case True
    obtain visited' grp where d: "dfsMarkGroup g ?pos color (visited, []) = (visited', grp)"
      by (cases "dfsMarkGroup g ?pos color (visited, [])")
    from dfs_prefix(1)[of g ?pos color "(visited, [])"] d
    obtain rest where grp: "grp = ?pos # rest" by auto
    show ?thesis
    proof (cases "calculateGroupLiberties g grp = 0")
      case False
      then show ?thesis using inv True d by (auto simp: captureCell_def st captureInv_def)
    next
      case lib0: True
      have res: "captureCell color y x st =
          (removeGroup grp g, if length grp = 1 then grp ! 0 else noPosition, visited', n + int (length grp))"
        using True d lib0 by (simp add: captureCell_def st)
      have n0: "0 \<le> n" using inv by (simp add: captureInv_def st)
      have keep: "\<forall>p. g p \<noteq> EMPTY \<longrightarrow> g p = g0 p" using inv by (simp add: captureInv_def st)
      have g0pos: "g0 ?pos = color" using keep True c by metis
      have a: "0 \<le> n + int (length grp)" using n0 by simp
      have b: "\<forall>p. removeGroup grp g p \<noteq> EMPTY \<longrightarrow> removeGroup grp g p = g0 p"
        using keep by (simp add: removeGroup_apply)
      have c0: "n + int (length grp) \<noteq> 0" using n0 grp by simp
      have c1: "n + int (length grp) = 1 \<longrightarrow>
          (\<exists>p. isValidPosition p \<and> g0 p = color \<and> removeGroup grp g = g0(p := EMPTY)
             \<and> (if length grp = 1 then grp ! 0 else noPosition) = p)"
      proof
        assume "n + int (length grp) = 1"
        then have "n = 0" "rest = []" using n0 grp by (auto simp: add_nonneg_eq_0_iff)
        then have "g = g0" using inv by (simp add: captureInv_def st)
        have "removeGroup grp g = g0(?pos := EMPTY)"
          using \<open>rest = []\<close> \<open>g = g0\<close> grp by (auto simp: removeGroup_apply fun_eq_iff)
        then show "\<exists>p. isValidPosition p \<and> g0 p = color \<and> removeGroup grp g = g0(p := EMPTY)
             \<and> (if length grp = 1 then grp ! 0 else noPosition) = p"
          using valid g0pos grp \<open>rest = []\<close> by (intro exI[of _ ?pos]) simp
      qed
      have c2: "\<exists>q. isValidPosition q \<and> g0 q = color \<and> removeGroup grp g q = EMPTY"
        using valid g0pos grp by (intro exI[of _ ?pos]) (simp add: removeGroup_apply)
      show ?thesis unfolding res captureInv_def using a b c0 c1 c2 by simp
    qed
  qed
qed

lemma captureScan_inv:
  assumes "color \<noteq> EMPTY"
  shows "captureInv g0 ko0 color (captureScan color (g0, ko0, v, 0))"
  unfolding captureScan_def
proof (rule fold_invariant, goal_cases)
  case 1
  show ?case by (simp add: captureInv_def)
next
  case (2 y s)
  show ?case
  proof (rule fold_invariant, goal_cases)
    case 1
    show ?case by (rule 2)
  next
    case (2 x s')
    then show ?case using \<open>y \<in> set [0..BOARD_SIZE - 1]\<close> assms
      by (intro captureCell_inv) auto
  qed
qed


lemma captureDeadStones_inv:
  assumes "color \<noteq> EMPTY" and "captureDeadStones b color = (b', n)"
  shows "\<exists>visited. captureInv (board b) (koPosition b) color (board b', koPosition b', visited, n)"
proof -
  obtain g ko visited m where sc: "captureScan color (board b, koPosition b, noMarks, 0) = (g, ko, visited, m)"
    by (cases "captureScan color (board b, koPosition b, noMarks, 0)")
  have "board b' = g" "koPosition b' = ko" "n = m"
    using assms(2) by (auto simp: captureDeadStones_def sc Let_def split: if_splits)
  then show ?thesis
    using captureScan_inv[OF assms(1), of "board b" "koPosition b" noMarks] sc by auto
qed

lemma captureDeadStones_stones:
  assumes "color \<noteq> EMPTY" and "captureDeadStones b color = (b', n)" and "0 < n"
  shows "stones (board b') < stones (board b)"
proof -
  from captureDeadStones_inv[OF assms(1,2)] obtain visited where
    inv: "captureInv (board b) (koPosition b) color (board b', koPosition b', visited, n)" ..
  then obtain q where q: "isValidPosition q" "board b q = color" "board b' q = EMPTY"
    using assms(3) by (auto simp: captureInv_def)
  have "\<And>p. board b' p \<noteq> EMPTY \<Longrightarrow> board b p \<noteq> EMPTY"
    using inv by (auto simp: captureInv_def)
  then show ?thesis using q assms(1) by (intro stones_less[of q]) auto
qed

subsection \<open>Placing a stone\<close>

text \<open>
  The \<^verbatim>\<open>do ... while (capturedCount > 0)\<close> loop of \<^verbatim>\<open>placeStone\<close>. The opponent's
  colour is computed from \<^verbatim>\<open>currentPlayer\<close>, which the loop does not change; it is
  never \<^verbatim>\<open>EMPTY\<close>, and every round that captures takes stones off the board, so the
  loop ends.
\<close>

function captureLoop :: "Board \<Rightarrow> int \<Rightarrow> Board \<times> int" where
  "captureLoop b totalCaptured =
     (let opponentColor = (if currentPlayer b = BLACK then WHITE else BLACK);
          (b', capturedCount) = captureDeadStones b opponentColor;
          totalCaptured' = totalCaptured + capturedCount
      in if capturedCount > 0 then captureLoop b' totalCaptured'
         else (b', totalCaptured'))"
  by pat_completeness auto
termination
proof (relation "measure (\<lambda>(b, t). stones (board b))", goal_cases)
  case 1
  show ?case by simp
next
  case (2 b totalCaptured opponentColor r b' capturedCount totalCaptured')
  then have "captureDeadStones b opponentColor = (b', capturedCount)" "opponentColor \<noteq> EMPTY"
    by auto
  from captureDeadStones_stones[OF this(2,1)] 2 show ?case by simp
qed

text \<open>
  \<^verbatim>\<open>calculateLiberties\<close>: the sum, over the groups of each colour, of the
  group's number of liberties.
\<close>

definition libertiesCell :: "Grid \<Rightarrow> int \<Rightarrow> int \<Rightarrow> Marks \<times> int \<times> int \<Rightarrow> Marks \<times> int \<times> int" where
  "libertiesCell g y x st =
     (case st of (visited, blackLib, whiteLib) \<Rightarrow>
        let pos = \<lparr>px = x, py = y\<rparr> in
        if (g pos = BLACK \<or> g pos = WHITE) \<and> \<not> visited pos then
          let (visited', grp) = dfsMarkGroup g pos (g pos) (visited, []);
              liberties = calculateGroupLiberties g grp
          in if g pos = BLACK then (visited', blackLib + liberties, whiteLib)
             else if g pos = WHITE then (visited', blackLib, whiteLib + liberties)
             else (visited', blackLib, whiteLib)
        else (visited, blackLib, whiteLib))"

definition calculateLiberties :: "Board \<Rightarrow> Board" where
  "calculateLiberties b =
     (case fold (\<lambda>y. fold (\<lambda>x. libertiesCell (board b) y x) [0..BOARD_SIZE - 1])
             [0..BOARD_SIZE - 1] (noMarks, 0, 0) of
        (visited, blackLib, whiteLib) \<Rightarrow>
          b\<lparr>blackLiberties := blackLib, whiteLiberties := whiteLib\<rparr>)"

text \<open>
  \<^verbatim>\<open>saveBoardState\<close>: the nodes after \<^verbatim>\<open>current\<close> are freed, a snapshot of the
  board is linked behind \<^verbatim>\<open>current\<close> and becomes the current node.
\<close>

definition saveBoardState :: "Board \<Rightarrow> Board" where
  "saveBoardState b =
     b\<lparr>prev_chain := current b # prev_chain b,
       current := createHistoryNode b,
       next_chain := []\<rparr>"

text \<open>
  \<^verbatim>\<open>placeStone\<close> returns the C function's result and the board it leaves behind.
  The body after the legality check is written as its four blocks in sequence:
  \<open>putStone\<close> writes the stone, records the last move and resets the ko fields;
  \<open>captureLoop\<close> removes the opponent's dead stones; \<open>markKo\<close> is the block under
  \<^verbatim>\<open>if (totalCaptured == 1)\<close>; \<open>finishMove\<close> recomputes the liberties, saves the
  snapshot and switches the player.
\<close>

definition putStone :: "Board \<Rightarrow> Position \<Rightarrow> Board" where
  "putStone b pos =
     b\<lparr>board := (board b)(pos := currentPlayer b),
       lastMove := pos,
       koActive := False,
       koPosition := noPosition\<rparr>"

definition markKo :: "Position \<Rightarrow> Board \<times> int \<Rightarrow> Board" where
  "markKo pos r =
     (case r of (b, totalCaptured) \<Rightarrow>
        if totalCaptured = 1 then
          let (visited, grp) = dfsMarkGroup (board b) pos (currentPlayer b) (noMarks, [])
          in if length grp = 1 \<and> calculateGroupLiberties (board b) grp = 1
             then b\<lparr>koActive := True\<rparr> else b
        else b)"

definition switchPlayer :: "Board \<Rightarrow> Board" where
  "switchPlayer b = b\<lparr>currentPlayer := (if currentPlayer b = BLACK then WHITE else BLACK)\<rparr>"

definition finishMove :: "Board \<Rightarrow> Board" where
  "finishMove b = switchPlayer (saveBoardState (calculateLiberties b))"

definition placeStone :: "Board \<Rightarrow> Position \<Rightarrow> bool \<times> Board" where
  "placeStone b pos =
     (if \<not> isValidMove b pos then (False, b)
      else (True, finishMove (markKo pos (captureLoop (putStone b pos) 0))))"

subsection \<open>Undo and redo\<close>

definition restoreCurrent :: "Board \<Rightarrow> Board" where
  "restoreCurrent b =
     b\<lparr>board := h_board (current b),
       lastMove := h_lastMove (current b),
       blackCaptures := h_blackCaptures (current b),
       whiteCaptures := h_whiteCaptures (current b),
       blackLiberties := h_blackLiberties (current b),
       whiteLiberties := h_whiteLiberties (current b),
       currentPlayer := (if currentPlayer b = BLACK then WHITE else BLACK),
       koActive := False,
       koPosition := noPosition\<rparr>"

definition undoMove :: "Board \<Rightarrow> bool \<times> Board" where
  "undoMove b =
     (case prev_chain b of
        [] \<Rightarrow> (False, b)
      | h # hs \<Rightarrow>
          (True, restoreCurrent
             (b\<lparr>current := h, prev_chain := hs, next_chain := current b # next_chain b\<rparr>)))"

definition redoMove :: "Board \<Rightarrow> bool \<times> Board" where
  "redoMove b =
     (case next_chain b of
        [] \<Rightarrow> (False, b)
      | h # hs \<Rightarrow>
          (True, restoreCurrent
             (b\<lparr>current := h, next_chain := hs, prev_chain := current b # prev_chain b\<rparr>)))"


section \<open>Games: sequences of moves from the initial board\<close>

abbreviation Pos :: "int \<Rightarrow> int \<Rightarrow> Position" where
  "Pos a b \<equiv> \<lparr>px = a, py = b\<rparr>"

text \<open>
  \<open>playMoves ps b\<close> calls \<^verbatim>\<open>placeStone\<close> for the positions of \<open>ps\<close> in turn and gives
  the last board when every call returned true.
\<close>

fun playMoves :: "Position list \<Rightarrow> Board \<Rightarrow> Board option" where
  "playMoves [] b = Some b"
| "playMoves (p # ps) b =
     (case placeStone b p of (True, b') \<Rightarrow> playMoves ps b' | (False, b') \<Rightarrow> None)"





text \<open>
  \<open>undoMoves n b\<close> calls \<^verbatim>\<open>undoMove\<close> \<open>n\<close> times and gives the last board when
  every call returned true.
\<close>

fun undoMoves :: "nat \<Rightarrow> Board \<Rightarrow> Board option" where
  "undoMoves 0 b = Some b"
| "undoMoves (Suc n) b =
     (case undoMove b of (True, b') \<Rightarrow> undoMoves n b' | (False, b') \<Rightarrow> None)"

text \<open>
  The boards a game can be in: the initial board and every board a successful
  \<^verbatim>\<open>placeStone\<close>, \<^verbatim>\<open>undoMove\<close> or \<^verbatim>\<open>redoMove\<close> leaves. A call that returns false
  leaves the board as it was.
\<close>

inductive reachable :: "Board \<Rightarrow> bool" where
  init: "reachable initBoard"
| place: "reachable b \<Longrightarrow> placeStone b pos = (True, b') \<Longrightarrow> reachable b'"
| undo: "reachable b \<Longrightarrow> undoMove b = (True, b') \<Longrightarrow> reachable b'"
| redo: "reachable b \<Longrightarrow> redoMove b = (True, b') \<Longrightarrow> reachable b'"

text \<open>
  Two facts hold on every such board: the current history node is the snapshot of
  the board, and along the history list (from the head through \<open>current\<close> to the last
  node) the capture counts never go down.
\<close>

definition synced :: "Board \<Rightarrow> bool" where
  "synced b \<longleftrightarrow> current b = createHistoryNode b"

definition chain :: "Board \<Rightarrow> BoardHistory list" where
  "chain b = rev (prev_chain b) @ current b # next_chain b"

definition capturesLe :: "BoardHistory \<Rightarrow> BoardHistory \<Rightarrow> bool" where
  "capturesLe h h' \<longleftrightarrow>
     h_blackCaptures h \<le> h_blackCaptures h' \<and> h_whiteCaptures h \<le> h_whiteCaptures h'"

definition historyInv :: "Board \<Rightarrow> bool" where
  "historyInv b \<longleftrightarrow> synced b \<and> sorted_wrt capturesLe (chain b)"

text \<open>
  The quantities \<^verbatim>\<open>placeStone\<close> tests before it activates ko: the number of stones
  the capture loop took, and the group and liberties of the stone just played on the
  board after the captures.
\<close>

definition totalCaptured :: "Board \<Rightarrow> Position \<Rightarrow> int" where
  "totalCaptured b pos = snd (captureLoop (putStone b pos) 0)"

definition ownGroup :: "Board \<Rightarrow> Position \<Rightarrow> Position list" where
  "ownGroup b pos =
     (case captureLoop (putStone b pos) 0 of
        (b4, t) \<Rightarrow> snd (dfsMarkGroup (board b4) pos (currentPlayer b4) (noMarks, [])))"

definition ownLiberties :: "Board \<Rightarrow> Position \<Rightarrow> int" where
  "ownLiberties b pos =
     calculateGroupLiberties (board (fst (captureLoop (putStone b pos) 0))) (ownGroup b pos)"

definition koCondition :: "Board \<Rightarrow> Position \<Rightarrow> bool" where
  "koCondition b pos \<longleftrightarrow>
     totalCaptured b pos = 1 \<and> length (ownGroup b pos) = 1 \<and> ownLiberties b pos = 1"

text \<open>
  Black (1,0), White (0,0), Black (0,1): the third move captures the corner stone.
\<close>

definition captureMoves :: "Position list" where
  "captureMoves = [Pos 1 0, Pos 0 0, Pos 0 1]"

section \<open>Scoring (board.c)\<close>

text \<open>
  \<^verbatim>\<open>determineWinner\<close> makes four passes. The first counts the stones of each colour;
  the second scans the cells again and, from every empty cell not yet marked in
  \<^verbatim>\<open>visited\<close>, floods the empty cells connected to it, counting them in
  \<^verbatim>\<open>territorySize\<close> and recording in \<^verbatim>\<open>touchesBlack\<close> and \<^verbatim>\<open>touchesWhite\<close> the
  colours met on the way, then credits the size to the one colour met, if it is the only
  one; the third adds \<^verbatim>\<open>whiteCaptures\<close> to Black's points and \<^verbatim>\<open>blackCaptures\<close> to
  White's; the fourth adds 4 to White's. Both scans visit the cells row by row
  (\<open>allCells\<close>, also the order of the scans of ai.c).

  The array \<^verbatim>\<open>queue\<close> with its indices \<^verbatim>\<open>front\<close> and \<^verbatim>\<open>rear\<close> is the list of the
  positions between them: reading \<^verbatim>\<open>queue[front++]\<close> takes the head, writing
  \<^verbatim>\<open>queue[rear++]\<close> appends. \<^verbatim>\<open>rear\<close> is \<^verbatim>\<open>territorySize\<close> throughout (both start
  at 1 and are incremented together), so the array is large enough when
  \<^verbatim>\<open>territorySize\<close> stays at most \<^verbatim>\<open>BOARD_SIZE * BOARD_SIZE\<close>. \<^verbatim>\<open>visited\<close> is one array
  for the whole scan, passed from one flood to the next. The points are unbounded
  integers. The result is the integer the C function returns: the code of
  \<^verbatim>\<open>BLACK\<close> or of \<^verbatim>\<open>WHITE\<close> in the enumeration (\<open>stoneCode\<close>), or 0 for a draw.
\<close>

definition allCells :: "Position list" where
  "allCells = concat (map (\<lambda>y. map (\<lambda>x. Pos x y) [0..BOARD_SIZE - 1]) [0..BOARD_SIZE - 1])"

definition stoneCode :: "Stone \<Rightarrow> int" where
  "stoneCode s = (case s of EMPTY \<Rightarrow> 0 | BLACK \<Rightarrow> 1 | WHITE \<Rightarrow> 2)"

type_synonym FloodState = "Position list \<times> Marks \<times> int \<times> bool \<times> bool"

definition floodStep :: "Grid \<Rightarrow> Position \<Rightarrow> int \<times> int \<Rightarrow> FloodState \<Rightarrow> FloodState" where
  "floodStep g cur d st =
     (case st of (queue, visited, territorySize, touchesBlack, touchesWhite) \<Rightarrow>
        let nx = px cur + fst d; ny = py cur + snd d in
        if nx < 0 \<or> nx \<ge> BOARD_SIZE \<or> ny < 0 \<or> ny \<ge> BOARD_SIZE
        then (queue, visited, territorySize, touchesBlack, touchesWhite)
        else if g (Pos nx ny) = EMPTY \<and> \<not> visited (Pos nx ny)
        then (queue @ [Pos nx ny], visited(Pos nx ny := True), territorySize + 1,
              touchesBlack, touchesWhite)
        else if g (Pos nx ny) = BLACK
        then (queue, visited, territorySize, True, touchesWhite)
        else if g (Pos nx ny) = WHITE
        then (queue, visited, territorySize, touchesBlack, True)
        else (queue, visited, territorySize, touchesBlack, touchesWhite))"

definition floodMeasure :: "FloodState \<Rightarrow> nat" where
  "floodMeasure st = (case st of (queue, visited, n, tb, tw) \<Rightarrow> 2 * unvisited visited + length queue)"

lemma floodStep_measure: "floodMeasure (floodStep g cur d st) \<le> floodMeasure st"
proof -
  obtain queue visited n tb tw where st: "st = (queue, visited, n, tb, tw)" by (cases st)
  let ?next = "Pos (px cur + fst d) (py cur + snd d)"
  show ?thesis
  proof (cases "isValidPosition ?next \<and> g ?next = EMPTY \<and> \<not> visited ?next")
    case True
    then have "unvisited (visited(?next := True)) < unvisited visited"
      by (intro unvisited_mark) auto
    then show ?thesis using True
      by (auto simp: floodStep_def st floodMeasure_def Let_def isValidPosition_def)
  next
    case False
    then show ?thesis
      by (auto simp: floodStep_def st floodMeasure_def Let_def isValidPosition_def)
  qed
qed

lemma floodStep_fold_measure: "floodMeasure (fold (floodStep g cur) ds st) \<le> floodMeasure st"
proof (induction ds arbitrary: st)
  case Nil
  show ?case by simp
next
  case (Cons d ds)
  have "floodMeasure (fold (floodStep g cur) ds (floodStep g cur d st))
      \<le> floodMeasure (floodStep g cur d st)" by (rule Cons.IH)
  also have "\<dots> \<le> floodMeasure st" by (rule floodStep_measure)
  finally show ?case by simp
qed

function flood :: "Grid \<Rightarrow> FloodState \<Rightarrow> FloodState" where
  "flood g (queue, visited, territorySize, touchesBlack, touchesWhite) =
     (case queue of
        [] \<Rightarrow> (queue, visited, territorySize, touchesBlack, touchesWhite)
      | cur # waiting \<Rightarrow>
          flood g (fold (floodStep g cur) (zip DX DY)
                     (waiting, visited, territorySize, touchesBlack, touchesWhite)))"
  by pat_completeness auto
termination
proof (relation "measure (\<lambda>(g, st). floodMeasure st)", goal_cases)
  case 1
  show ?case by simp
next
  case (2 g queue visited territorySize touchesBlack touchesWhite cur waiting)
  have "floodMeasure (fold (floodStep g cur) (zip DX DY) (waiting, visited, territorySize, touchesBlack, touchesWhite))
      \<le> floodMeasure (waiting, visited, territorySize, touchesBlack, touchesWhite)"
    by (rule floodStep_fold_measure)
  also have "\<dots> < floodMeasure (queue, visited, territorySize, touchesBlack, touchesWhite)"
    using 2 by (simp add: floodMeasure_def)
  finally show ?case by simp
qed

declare flood.simps [simp del]

definition countStone :: "Grid \<Rightarrow> Position \<Rightarrow> int \<times> int \<Rightarrow> int \<times> int" where
  "countStone g pos st =
     (case st of (blackPoints, whitePoints) \<Rightarrow>
        if g pos = BLACK then (blackPoints + 1, whitePoints)
        else if g pos = WHITE then (blackPoints, whitePoints + 1)
        else (blackPoints, whitePoints))"

definition creditTerritory :: "Marks \<times> int \<times> int \<Rightarrow> FloodState \<Rightarrow> Marks \<times> int \<times> int" where
  "creditTerritory st f =
     (case st of (visited, blackPoints, whitePoints) \<Rightarrow>
      case f of (queue, visited', territorySize, touchesBlack, touchesWhite) \<Rightarrow>
        if touchesBlack \<and> \<not> touchesWhite then (visited', blackPoints + territorySize, whitePoints)
        else if \<not> touchesBlack \<and> touchesWhite then (visited', blackPoints, whitePoints + territorySize)
        else (visited', blackPoints, whitePoints))"

definition territoryCell :: "Grid \<Rightarrow> Position \<Rightarrow> Marks \<times> int \<times> int \<Rightarrow> Marks \<times> int \<times> int" where
  "territoryCell g pos st =
     (if g pos = EMPTY \<and> \<not> fst st pos
      then creditTerritory st (flood g ([pos], (fst st)(pos := True), 1, False, False))
      else st)"

definition territoryStart :: "int \<times> int \<Rightarrow> Marks \<times> int \<times> int" where
  "territoryStart st = (noMarks, fst st, snd st)"

definition areaPoints :: "Grid \<Rightarrow> int \<times> int" where
  "areaPoints g =
     snd (fold (territoryCell g) allCells
            (territoryStart (fold (countStone g) allCells (0, 0))))"

definition finalPoints :: "Board \<Rightarrow> int \<times> int" where
  "finalPoints b =
     (fst (areaPoints (board b)) + whiteCaptures b,
      snd (areaPoints (board b)) + blackCaptures b + 4)"

definition determineWinner :: "Board \<Rightarrow> int" where
  "determineWinner b =
     (let blackPoints = fst (finalPoints b);
          whitePoints = snd (finalPoints b)
      in if blackPoints > whitePoints then stoneCode BLACK
         else if whitePoints > blackPoints then stoneCode WHITE
         else 0)"


subsection \<open>The scoring rule in terms of regions\<close>

text \<open>
  The rule \<^verbatim>\<open>determineWinner\<close> is documented to implement, written without reference
  to the code: two empty cells of the board are adjacent when one is the neighbour of
  the other in one of the four directions; the region of an empty cell is the set of
  cells reachable from it by adjacent empty cells (a maximal connected set of empty
  cells); a region borders a colour when a cell of it has a neighbour on the board
  with a stone of that colour; the territory of a colour is the set of empty cells
  whose region borders that colour and not the other. The score of a side is the
  number of its stones, plus the size of its territory, plus the capture counter of
  the other side, plus 4 for White.
\<close>

definition nbr :: "Position \<Rightarrow> int \<times> int \<Rightarrow> Position" where
  "nbr p d = Pos (px p + fst d) (py p + snd d)"

definition emptyAdj :: "Grid \<Rightarrow> (Position \<times> Position) set" where
  "emptyAdj g =
     {(a, b). isValidPosition a \<and> g a = EMPTY \<and> isValidPosition b \<and> g b = EMPTY \<and>
              (\<exists>d \<in> set (zip DX DY). b = nbr a d)}"

definition region :: "Grid \<Rightarrow> Position \<Rightarrow> Position set" where
  "region g p = {q. (p, q) \<in> (emptyAdj g)\<^sup>*}"

definition borders :: "Grid \<Rightarrow> Position set \<Rightarrow> Stone \<Rightarrow> bool" where
  "borders g R c \<longleftrightarrow>
     (\<exists>a \<in> R. \<exists>d \<in> set (zip DX DY). isValidPosition (nbr a d) \<and> g (nbr a d) = c)"

definition territory :: "Grid \<Rightarrow> Stone \<Rightarrow> Position set" where
  "territory g c =
     {p. isValidPosition p \<and> g p = EMPTY \<and> borders g (region g p) c \<and>
         \<not> borders g (region g p) (if c = BLACK then WHITE else BLACK)}"

definition stonesOf :: "Grid \<Rightarrow> Stone \<Rightarrow> Position set" where
  "stonesOf g c = {p. isValidPosition p \<and> g p = c}"

definition specScore :: "Board \<Rightarrow> Stone \<Rightarrow> int" where
  "specScore b c =
     int (card (stonesOf (board b) c)) + int (card (territory (board b) c)) +
     (if c = BLACK then whiteCaptures b else blackCaptures b + 4)"

definition specWinner :: "Board \<Rightarrow> int" where
  "specWinner b =
     (if specScore b BLACK > specScore b WHITE then stoneCode BLACK
      else if specScore b WHITE > specScore b BLACK then stoneCode WHITE
      else 0)"


subsection \<open>Invariants of the flood and of the scan\<close>

text \<open>
  During a flood started at \<open>p\<close> with the marks \<open>V\<close>, the cells marked since
  (\<open>newMarks\<close>) lie in the region of \<open>p\<close>, the queue holds some of them without
  repetition, and \<^verbatim>\<open>territorySize\<close> is their number (\<open>floodBase\<close>). Between two
  iterations of the \<^verbatim>\<open>while\<close> loop (\<open>floodOuter\<close>), every empty neighbour of a cell
  already taken from the queue is marked, and the two flags say whether such a cell
  has a neighbour of the colour. Inside the \<^verbatim>\<open>for\<close> loop (\<open>floodInner\<close>) the same
  holds with the current cell and the directions \<open>S\<close> already handled. Between two
  cells of the scan (\<open>scanInv\<close>), the marked cells are empty cells of the board
  closed under adjacency (\<open>closedMarks\<close>), every empty cell already scanned is
  marked, and the points are the stone counts plus the marked part of each territory.
\<close>

definition newMarks :: "Marks \<Rightarrow> Marks \<Rightarrow> Position set" where
  "newMarks V W = {q. W q \<and> \<not> V q}"

definition touches :: "Grid \<Rightarrow> Position \<Rightarrow> int \<times> int \<Rightarrow> Stone \<Rightarrow> bool" where
  "touches g a d c \<longleftrightarrow> isValidPosition (nbr a d) \<and> g (nbr a d) = c"

definition floodBase :: "Grid \<Rightarrow> Marks \<Rightarrow> Position \<Rightarrow> Position list \<Rightarrow> Marks \<Rightarrow> int \<Rightarrow> bool" where
  "floodBase g V p Q W n \<longleftrightarrow>
     (\<forall>q. V q \<longrightarrow> W q) \<and> newMarks V W \<subseteq> region g p \<and>
     set Q \<subseteq> newMarks V W \<and> distinct Q \<and>
     n = int (card (newMarks V W)) \<and> p \<in> newMarks V W"

definition seenAround :: "Grid \<Rightarrow> Marks \<Rightarrow> Position set \<Rightarrow> bool" where
  "seenAround g W A \<longleftrightarrow>
     (\<forall>a \<in> A. \<forall>d \<in> set (zip DX DY). touches g a d EMPTY \<longrightarrow> W (nbr a d))"

definition touchAround :: "Grid \<Rightarrow> Position set \<Rightarrow> Stone \<Rightarrow> bool" where
  "touchAround g A c \<longleftrightarrow> (\<exists>a \<in> A. \<exists>d \<in> set (zip DX DY). touches g a d c)"

definition floodInner :: "Grid \<Rightarrow> Marks \<Rightarrow> Position \<Rightarrow> Position \<Rightarrow> (int \<times> int) set \<Rightarrow> FloodState \<Rightarrow> bool" where
  "floodInner g V p cur S st =
     (case st of (Q, W, n, tb, tw) \<Rightarrow>
        floodBase g V p Q W n \<and> cur \<notin> set Q \<and> cur \<in> newMarks V W \<and>
        seenAround g W (newMarks V W - set Q - {cur}) \<and>
        (\<forall>d \<in> S. touches g cur d EMPTY \<longrightarrow> W (nbr cur d)) \<and>
        (tb \<longleftrightarrow> touchAround g (newMarks V W - set Q - {cur}) BLACK \<or>
                (\<exists>d \<in> S. touches g cur d BLACK)) \<and>
        (tw \<longleftrightarrow> touchAround g (newMarks V W - set Q - {cur}) WHITE \<or>
                (\<exists>d \<in> S. touches g cur d WHITE)))"

definition floodOuter :: "Grid \<Rightarrow> Marks \<Rightarrow> Position \<Rightarrow> FloodState \<Rightarrow> bool" where
  "floodOuter g V p st =
     (case st of (Q, W, n, tb, tw) \<Rightarrow>
        floodBase g V p Q W n \<and>
        seenAround g W (newMarks V W - set Q) \<and>
        (tb \<longleftrightarrow> touchAround g (newMarks V W - set Q) BLACK) \<and>
        (tw \<longleftrightarrow> touchAround g (newMarks V W - set Q) WHITE))"

definition closedMarks :: "Grid \<Rightarrow> Marks \<Rightarrow> bool" where
  "closedMarks g V \<longleftrightarrow>
     (\<forall>q. V q \<longrightarrow> isValidPosition q \<and> g q = EMPTY) \<and>
     (\<forall>a b. V a \<and> (a, b) \<in> emptyAdj g \<longrightarrow> V b)"

definition scanInv :: "Grid \<Rightarrow> int \<Rightarrow> int \<Rightarrow> Position set \<Rightarrow> Marks \<times> int \<times> int \<Rightarrow> bool" where
  "scanInv g bp0 wp0 P st =
     (case st of (V, bp, wp) \<Rightarrow>
        closedMarks g V \<and> (\<forall>c \<in> P. g c = EMPTY \<longrightarrow> V c) \<and>
        bp = bp0 + int (card {q. V q \<and> q \<in> territory g BLACK}) \<and>
        wp = wp0 + int (card {q. V q \<and> q \<in> territory g WHITE}))"


subsection \<open>A board to evaluate the scoring on\<close>

text \<open>
  A full board with three empty regions: three cells in a corner enclosed by White,
  two cells in the opposite corner enclosed by Black, and two cells in the middle
  touching both colours. \<open>scoreBoard n\<close> has this grid and \<open>n\<close> in \<^verbatim>\<open>blackCaptures\<close>.
\<close>

definition scoreGrid :: Grid where
  "scoreGrid =
     (\<lambda>p. if p \<in> set [Pos 0 0, Pos 1 0, Pos 0 1, Pos 18 18, Pos 17 18, Pos 9 9, Pos 10 9]
          then EMPTY
          else if p \<in> set [Pos 2 0, Pos 1 1, Pos 0 2, Pos 8 9] then WHITE
          else BLACK)"

definition scoreBoard :: "int \<Rightarrow> Board" where
  "scoreBoard n = initBoard\<lparr>board := scoreGrid, blackCaptures := n\<rparr>"

section \<open>Stones without liberties\<close>

text \<open>
  \<open>hasNeighbour g q c\<close>: one of the four neighbours of \<open>q\<close> is on the board and holds
  \<open>c\<close> in the grid \<open>g\<close> (\<^verbatim>\<open>EMPTY\<close> for a liberty). A dead stone is a stone on the board
  with no neighbour of its own colour and no empty neighbour: a group of one stone
  without a liberty. \<open>emptyNeighbours g p ds\<close> are the liberties of the single stone
  \<open>p\<close> found in the directions \<open>ds\<close>.
\<close>

definition hasNeighbour :: "Grid \<Rightarrow> Position \<Rightarrow> Stone \<Rightarrow> bool" where
  "hasNeighbour g q c \<longleftrightarrow>
     (\<exists>d \<in> set (zip DX DY). isValidPosition (nbr q d) \<and> g (nbr q d) = c)"

definition emptyNeighbours :: "Grid \<Rightarrow> Position \<Rightarrow> (int \<times> int) list \<Rightarrow> Position set" where
  "emptyNeighbours g p ds =
     {n. \<exists>d \<in> set ds. n = nbr p d \<and> isValidPosition n \<and> g n = EMPTY}"

definition deadStone :: "Grid \<Rightarrow> Position \<Rightarrow> bool" where
  "deadStone g q \<longleftrightarrow>
     isValidPosition q \<and> g q \<noteq> EMPTY \<and> \<not> hasNeighbour g q (g q) \<and> \<not> hasNeighbour g q EMPTY"

definition noDead :: "Grid \<Rightarrow> bool" where
  "noDead g \<longleftrightarrow> (\<forall>q. \<not> deadStone g q)"

text \<open>
  What holds between two cells of a scan of \<^verbatim>\<open>captureDeadStones\<close> over the grid \<open>g0\<close>
  for the colour \<open>c\<close>: as long as nothing was captured the grid is \<open>g0\<close> and every
  marked cell has its neighbours of colour \<open>c\<close> marked (\<open>closedAt\<close>); when one stone was
  captured, it was a dead stone of \<open>g0\<close> and the grid is \<open>g0\<close> without it; only stones
  of colour \<open>c\<close> are ever taken.
\<close>

definition closedAt :: "Grid \<Rightarrow> Stone \<Rightarrow> Marks \<Rightarrow> Position \<Rightarrow> bool" where
  "closedAt g c V m \<longleftrightarrow>
     (\<forall>d \<in> set (zip DX DY). isValidPosition (nbr m d) \<and> g (nbr m d) = c \<longrightarrow> V (nbr m d))"

definition scanK :: "Grid \<Rightarrow> Stone \<Rightarrow> Grid \<times> Position \<times> Marks \<times> int \<Rightarrow> bool" where
  "scanK g0 c st =
     (case st of (g, ko, v, n) \<Rightarrow>
        0 \<le> n \<and>
        (n = 0 \<longrightarrow> g = g0 \<and> (\<forall>m. v m \<longrightarrow> closedAt g0 c v m)) \<and>
        (n = 1 \<longrightarrow> (\<exists>p. deadStone g0 p \<and> g0 p = c \<and> g = g0(p := EMPTY))) \<and>
        (\<forall>p. g p = g0 p \<or> (g0 p = c \<and> g p = EMPTY)))"

text \<open>
  On the boards of a game the player to move is Black or White and no grid, of the
  board or of a node of the history, holds a dead stone (\<open>gameInv\<close>); and a board or
  history node without a last move (a negative coordinate, which is what
  \<^verbatim>\<open>findBestMove\<close> tests) has the empty grid, with ko inactive on the board
  (\<open>freshInv\<close>).
\<close>

definition gameInv :: "Board \<Rightarrow> bool" where
  "gameInv b \<longleftrightarrow>
     currentPlayer b \<noteq> EMPTY \<and> noDead (board b) \<and> (\<forall>h \<in> set (chain b). noDead (h_board h))"

definition noLastMove :: "Position \<Rightarrow> bool" where
  "noLastMove p \<longleftrightarrow> px p < 0 \<or> py p < 0"

definition freshInv :: "Board \<Rightarrow> bool" where
  "freshInv b \<longleftrightarrow>
     (noLastMove (lastMove b) \<longrightarrow> board b = emptyGrid \<and> \<not> koActive b) \<and>
     (\<forall>h \<in> set (chain b). noLastMove (h_lastMove h) \<longrightarrow> h_board h = emptyGrid)"



section \<open>The search engine (ai.c)\<close>

text \<open>
  What the model takes from outside. \<^verbatim>\<open>rand()\<close> reads the next element of a
  sequence of natural numbers (\<open>Rand\<close>; \<open>rest\<close> drops the element read), and
  \<^verbatim>\<open>SDL_GetTicks()\<close> the next element of a sequence of tick counts (\<open>Clock\<close>), read
  modulo \<open>2 ^ 32\<close> as the \<^verbatim>\<open>Uint32\<close> it is. The UCT score of \<^verbatim>\<open>calculateUCT\<close> is
  computed in \<^verbatim>\<open>double\<close> arithmetic, which is not modelled: the child the loop of
  \<^verbatim>\<open>selectNode\<close> ends with is given by a function \<open>Pick\<close> of the node and the
  exploration parameter (\<open>None\<close> when \<^verbatim>\<open>bestChild\<close> stays \<^verbatim>\<open>NULL\<close>). Every theorem
  below holds for all three.

  A tree node is its move, player, visits, wins and the list of its children; the
  \<^verbatim>\<open>parent\<close> pointer of a node is its place in the tree, and a pointer to a node is
  the tree together with the path of child indices from the root. Allocation is taken
  to succeed. A result \<open>None\<close> stands for undefined behaviour of the C code: a write
  past the end of \<^verbatim>\<open>moves[DEFAULT_MAX_DEPTH]\<close>, or the use of a \<^verbatim>\<open>NULL\<close> \<^verbatim>\<open>bestChild\<close>.

  The temporary boards of \<^verbatim>\<open>expandNode\<close> and \<^verbatim>\<open>simulateGame\<close> are copies of the board
  by \<^verbatim>\<open>memcpy\<close>: the grid and the scalar fields are copied, the history list is shared
  with the caller's board. The model copies the whole record; what the replay does
  to the shared list is not modelled, and nothing the search reads depends on it.
\<close>

definition DEFAULT_SIMULATION_COUNT :: int where
  "DEFAULT_SIMULATION_COUNT = 789"

definition DEFAULT_EXPLORATION_PARAM :: real where
  "DEFAULT_EXPLORATION_PARAM = 4.2"

definition DEFAULT_MAX_DEPTH :: nat where
  "DEFAULT_MAX_DEPTH = 50"

definition MCTS_TIME_LIMIT :: int where
  "MCTS_TIME_LIMIT = 3000"

definition MCTS_RANGE_SMALL :: int where
  "MCTS_RANGE_SMALL = 1"

record AIConfig =
  simulationCount :: int
  explorationParameter :: real
  maxDepth :: int

definition initAIConfig :: AIConfig where
  "initAIConfig =
     \<lparr>simulationCount = DEFAULT_SIMULATION_COUNT,
      explorationParameter = DEFAULT_EXPLORATION_PARAM,
      maxDepth = int DEFAULT_MAX_DEPTH\<rparr>"

datatype MCTSNode =
  MCTSNode (move: Position) (player: Stone) (visits: int) (wins: real)
    (children: "MCTSNode list")

type_synonym Rand = "nat \<Rightarrow> nat"

type_synonym Clock = "nat \<Rightarrow> int"

type_synonym Pick = "MCTSNode \<Rightarrow> real \<Rightarrow> nat option"

definition rest :: "(nat \<Rightarrow> 'a) \<Rightarrow> nat \<Rightarrow> 'a" where
  "rest s = (\<lambda>i. s (Suc i))"

definition createRootNode :: "Board \<Rightarrow> MCTSNode" where
  "createRootNode b = MCTSNode noPosition (currentPlayer b) 0 0 []"

definition createChildNode :: "Position \<Rightarrow> Stone \<Rightarrow> MCTSNode" where
  "createChildNode mv pl = MCTSNode mv pl 0 0 []"

text \<open>
  \<^verbatim>\<open>getValidMovesInRange\<close> and \<^verbatim>\<open>getLegalMoves\<close>: the positions the two loops visit,
  in their order, with those kept that pass the test.
\<close>

definition getValidMovesInRange :: "Board \<Rightarrow> int \<Rightarrow> int \<Rightarrow> int \<Rightarrow> Position list" where
  "getValidMovesInRange b centerX centerY rangeN =
     filter (\<lambda>pos. px pos \<ge> 0 \<and> px pos < BOARD_SIZE \<and> py pos \<ge> 0 \<and> py pos < BOARD_SIZE \<and>
                   isValidMove b pos)
       (concat (map (\<lambda>dx. map (\<lambda>dy. Pos (centerX + dx) (centerY + dy)) [- rangeN..rangeN])
                  [- rangeN..rangeN]))"

definition getLegalMoves :: "Board \<Rightarrow> Position list" where
  "getLegalMoves b = filter (isValidMove b) allCells"

text \<open>
  \<open>nodesOnPath\<close> lists the nodes from the root down to the node a path leads to, and
  \<open>updateAt\<close> rewrites that node in place.
\<close>

fun nodesOnPath :: "MCTSNode \<Rightarrow> nat list \<Rightarrow> MCTSNode list" where
  "nodesOnPath node [] = [node]"
| "nodesOnPath node (i # is) = node # nodesOnPath (children node ! i) is"

fun updateAt :: "nat list \<Rightarrow> (MCTSNode \<Rightarrow> MCTSNode) \<Rightarrow> MCTSNode \<Rightarrow> MCTSNode" where
  "updateAt [] f node = f node"
| "updateAt (i # is) f node =
     MCTSNode (move node) (player node) (visits node) (wins node)
       ((children node)[i := updateAt is f (children node ! i)])"

definition nodeAt :: "MCTSNode \<Rightarrow> nat list \<Rightarrow> MCTSNode" where
  "nodeAt rootNode path = last (nodesOnPath rootNode path)"

text \<open>
  \<open>parentChain\<close> is the node followed by its parent, its parent's parent and so on
  up to the root: what following \<^verbatim>\<open>->parent\<close> from the node visits.
\<close>

definition parentChain :: "MCTSNode \<Rightarrow> nat list \<Rightarrow> MCTSNode list" where
  "parentChain rootNode path = rev (nodesOnPath rootNode path)"

definition setChildren :: "MCTSNode list \<Rightarrow> MCTSNode \<Rightarrow> MCTSNode" where
  "setChildren cs node = MCTSNode (move node) (player node) (visits node) (wins node) cs"

lemma nth_size_less: "i < length xs \<Longrightarrow> size (xs ! i) < Suc (size_list size xs)"
proof (induction xs arbitrary: i)
  case Nil
  then show ?case by simp
next
  case (Cons a xs)
  show ?case
  proof (cases i)
    case 0
    then show ?thesis by simp
  next
    case (Suc j)
    with Cons.prems have "j < length xs" by simp
    from Cons.IH[OF this] Suc show ?thesis by simp
  qed
qed

text \<open>
  \<^verbatim>\<open>selectNode\<close> returns the path to the node it selects. The call of \<^verbatim>\<open>rand()\<close> in
  the condition is made whatever \<^verbatim>\<open>visits\<close> is.
\<close>

function selectNode :: "Pick \<Rightarrow> AIConfig \<Rightarrow> MCTSNode \<Rightarrow> Rand \<Rightarrow> (nat list \<times> Rand) option" where
  "selectNode pick config node rng =
     (if children node = [] then Some ([], rng)
      else if rng 0 mod 100 < 5 \<and> visits node > 50 then
        (let randomChild = rng 1 mod length (children node) in
         map_option (\<lambda>(path, rng'). (randomChild # path, rng'))
           (selectNode pick config (children node ! randomChild) (rest (rest rng))))
      else
        (case pick node (explorationParameter config) of
           None \<Rightarrow> None
         | Some bestChild \<Rightarrow>
             if bestChild < length (children node)
             then map_option (\<lambda>(path, rng'). (bestChild # path, rng'))
                    (selectNode pick config (children node ! bestChild) (rest rng))
             else None))"
  by pat_completeness auto
termination
proof (relation "measure (\<lambda>(pick, config, node, rng). size node)", goal_cases)
  case 1
  show ?case by simp
next
  case (2 pick config node rng randomChild)
  then have "randomChild < length (children node)" by simp
  from nth_size_less[OF this] show ?case by (cases node) simp
next
  case (3 pick config node rng bestChild)
  from nth_size_less[OF 3(4)] show ?case by (cases node) simp
qed

declare selectNode.simps [simp del]

text \<open>
  The reconstruction of the board at a node, as \<^verbatim>\<open>expandNode\<close> and \<^verbatim>\<open>simulateGame\<close>
  both write it. The inner \<^verbatim>\<open>while (temp->parent)\<close> loop collects the nodes from
  \<^verbatim>\<open>temp\<close> up to the child of the root (\<open>collectMoves\<close>); the \<^verbatim>\<open>for\<close> loop plays their
  moves from the last collected to the first (\<open>applyMoves\<close>); the outer
  \<^verbatim>\<open>while (current->parent)\<close> loop does both for the node, then for its parent, and so
  on (\<open>replayPath\<close>).
\<close>

fun collectMoves :: "MCTSNode list \<Rightarrow> MCTSNode list" where
  "collectMoves (temp # parent # up) = temp # collectMoves (parent # up)"
| "collectMoves up = []"

definition applyMoves :: "MCTSNode list \<Rightarrow> Board \<Rightarrow> Board" where
  "applyMoves moves tempBoard = fold (\<lambda>n b. snd (placeStone b (move n))) (rev moves) tempBoard"

fun replayPath :: "MCTSNode list \<Rightarrow> Board \<Rightarrow> Board option" where
  "replayPath (cur # parent # up) tempBoard =
     (let moves = collectMoves (cur # parent # up) in
      if length moves > DEFAULT_MAX_DEPTH then None
      else replayPath (parent # up) (applyMoves moves tempBoard))"
| "replayPath up tempBoard = Some tempBoard"

text \<open>
  The reference the reconstruction is compared with: the moves on the path from the
  root to the node, played once, in that order.
\<close>

definition replayOnce :: "MCTSNode list \<Rightarrow> Board \<Rightarrow> Board" where
  "replayOnce chn rootBoard = applyMoves (collectMoves chn) rootBoard"

text \<open>
  \<^verbatim>\<open>expandNode\<close>. The candidate moves come in three tiers: the legal moves within one
  cell of the last move; while there are fewer than five, the nine star points not yet
  listed; while there are still fewer than five, the cells of the board row by row,
  until there are twenty. Then one child per candidate is created and one of them is
  returned, chosen by one of three strategies.
\<close>

definition starPoints :: "Position list" where
  "starPoints =
     [Pos 3 3, Pos 3 (BOARD_SIZE - 4), Pos (BOARD_SIZE - 4) 3, Pos (BOARD_SIZE - 4) (BOARD_SIZE - 4),
      Pos 3 (BOARD_SIZE div 2), Pos (BOARD_SIZE div 2) 3,
      Pos (BOARD_SIZE - 4) (BOARD_SIZE div 2), Pos (BOARD_SIZE div 2) (BOARD_SIZE - 4),
      Pos (BOARD_SIZE div 2) (BOARD_SIZE div 2)]"

definition hasLastMove :: "Board \<Rightarrow> bool" where
  "hasLastMove b \<longleftrightarrow> px (lastMove b) \<ge> 0 \<and> py (lastMove b) \<ge> 0"

definition nearLastMove :: "Board \<Rightarrow> Position list" where
  "nearLastMove b =
     (if hasLastMove b
      then getValidMovesInRange b (px (lastMove b)) (py (lastMove b)) MCTS_RANGE_SMALL
      else [])"

definition addStarPoint :: "Board \<Rightarrow> Position \<Rightarrow> Position list \<Rightarrow> Position list" where
  "addStarPoint tempBoard pos legalMoves =
     (if isValidMove tempBoard pos \<and> pos \<notin> set legalMoves then legalMoves @ [pos]
      else legalMoves)"

definition addStarPoints :: "Board \<Rightarrow> Position list \<Rightarrow> Position list" where
  "addStarPoints tempBoard legalMoves =
     (if length legalMoves < 5 then fold (addStarPoint tempBoard) starPoints legalMoves
      else legalMoves)"

definition addCell :: "Board \<Rightarrow> Position \<Rightarrow> Position list \<Rightarrow> Position list" where
  "addCell tempBoard pos legalMoves =
     (if length legalMoves \<ge> 20 then legalMoves
      else if pos \<in> set legalMoves then legalMoves
      else if isValidMove tempBoard pos then legalMoves @ [pos]
      else legalMoves)"

definition addAllCells :: "Board \<Rightarrow> Position list \<Rightarrow> Position list" where
  "addAllCells tempBoard legalMoves =
     (if length legalMoves < 5 then fold (addCell tempBoard) allCells legalMoves
      else legalMoves)"

definition expandCandidates :: "Board \<Rightarrow> Position list" where
  "expandCandidates tempBoard = addAllCells tempBoard (addStarPoints tempBoard (nearLastMove tempBoard))"

definition edgeStep :: "int \<Rightarrow> int \<Rightarrow> nat \<times> Position \<Rightarrow> int \<times> nat \<Rightarrow> int \<times> nat" where
  "edgeStep parentX parentY ip st =
     (case st of (maxDistance, selectedIndex) \<Rightarrow>
        let dx = px (snd ip) - parentX; dy = py (snd ip) - parentY;
            distance = dx * dx + dy * dy
        in if distance > maxDistance then (distance, fst ip) else (maxDistance, selectedIndex))"

definition edgeIndex :: "Board \<Rightarrow> Position list \<Rightarrow> nat" where
  "edgeIndex tempBoard legalMoves =
     snd (fold (edgeStep (px (lastMove tempBoard)) (py (lastMove tempBoard)))
            (enumerate 0 legalMoves) (0, 0))"

definition connectedStones :: "Board \<Rightarrow> Stone \<Rightarrow> Position \<Rightarrow> int" where
  "connectedStones tempBoard pl pos =
     int (length (filter
       (\<lambda>d. isValidPosition (Pos (px pos + fst d) (py pos + snd d)) \<and>
            board tempBoard (Pos (px pos + fst d) (py pos + snd d)) = pl)
       (zip DX DY)))"

definition centerStep :: "Board \<Rightarrow> Stone \<Rightarrow> nat \<times> Position \<Rightarrow> int \<times> nat \<Rightarrow> int \<times> nat" where
  "centerStep tempBoard pl ip st =
     (case st of (minDistance, selectedIndex) \<Rightarrow>
        let dx = px (snd ip) - BOARD_SIZE div 2; dy = py (snd ip) - BOARD_SIZE div 2;
            distance = dx * dx + dy * dy - connectedStones tempBoard pl (snd ip) * 5
        in if distance < minDistance then (distance, fst ip) else (minDistance, selectedIndex))"

definition centerIndex :: "Board \<Rightarrow> Stone \<Rightarrow> Position list \<Rightarrow> nat" where
  "centerIndex tempBoard pl legalMoves =
     snd (fold (centerStep tempBoard pl) (enumerate 0 legalMoves) (BOARD_SIZE * BOARD_SIZE * 2, 0))"

definition chooseChild :: "Board \<Rightarrow> Stone \<Rightarrow> Position list \<Rightarrow> Rand \<Rightarrow> nat \<times> Rand" where
  "chooseChild tempBoard pl legalMoves rng =
     (if rng 0 mod 3 = 0 then (rng 1 mod length legalMoves, rest (rest rng))
      else if rng 0 mod 3 = 1 \<and> px (lastMove tempBoard) \<ge> 0
      then (edgeIndex tempBoard legalMoves, rest rng)
      else (centerIndex tempBoard pl legalMoves, rest rng))"

definition growNode :: "MCTSNode \<Rightarrow> nat list \<Rightarrow> Board \<Rightarrow> Position list \<Rightarrow> Rand \<Rightarrow> MCTSNode \<times> nat list \<times> Rand" where
  "growNode rootNode path tempBoard legalMoves rng =
     (if legalMoves = [] then (rootNode, path, rng)
      else
        (updateAt path
           (setChildren
              (map (\<lambda>mv. createChildNode mv
                            (if player (nodeAt rootNode path) = BLACK then WHITE else BLACK))
                 legalMoves))
           rootNode,
         path @ [fst (chooseChild tempBoard (player (nodeAt rootNode path)) legalMoves rng)],
         snd (chooseChild tempBoard (player (nodeAt rootNode path)) legalMoves rng)))"

definition expandOn :: "MCTSNode \<Rightarrow> nat list \<Rightarrow> Rand \<Rightarrow> Board \<Rightarrow> MCTSNode \<times> nat list \<times> Rand" where
  "expandOn rootNode path rng tempBoard = growNode rootNode path tempBoard (expandCandidates tempBoard) rng"

definition expandNode :: "MCTSNode \<Rightarrow> nat list \<Rightarrow> Board \<Rightarrow> Rand \<Rightarrow> (MCTSNode \<times> nat list \<times> Rand) option" where
  "expandNode rootNode path b rng =
     map_option (expandOn rootNode path rng) (replayPath (parentChain rootNode path) b)"

text \<open>
  \<^verbatim>\<open>simulateGame\<close>. One pass of the \<^verbatim>\<open>while (moveCount < maxMoves)\<close> loop is
  \<open>rolloutStep\<close>: it gives \<open>Inl\<close> when the loop is left by \<^verbatim>\<open>break\<close> and \<open>Inr\<close> with
  the next state otherwise. The state is the board, the random source, \<^verbatim>\<open>moveCount\<close>
  and the capture counts of the last check.
\<close>

fun probeRandom :: "nat \<Rightarrow> Board \<Rightarrow> Rand \<Rightarrow> Position list \<times> Rand" where
  "probeRandom 0 tempBoard rng = ([], rng)"
| "probeRandom (Suc attempts) tempBoard rng =
     (if isValidMove tempBoard (Pos (int (rng 0) mod BOARD_SIZE) (int (rng 1) mod BOARD_SIZE))
      then ([Pos (int (rng 0) mod BOARD_SIZE) (int (rng 1) mod BOARD_SIZE)], rest (rest rng))
      else probeRandom attempts tempBoard (rest (rest rng)))"

definition widenSearch :: "Board \<Rightarrow> Rand \<Rightarrow> Position list \<Rightarrow> Position list \<times> Rand" where
  "widenSearch tempBoard rng moves =
     (if moves = [] then probeRandom 10 tempBoard rng else (moves, rng))"

definition rolloutMoves :: "Board \<Rightarrow> Rand \<Rightarrow> Position list \<times> Rand" where
  "rolloutMoves tempBoard rng = widenSearch tempBoard rng (nearLastMove tempBoard)"

type_synonym RolloutState = "Board \<times> Rand \<times> int \<times> int \<times> int"

definition afterPly :: "Rand \<Rightarrow> int \<Rightarrow> int \<Rightarrow> int \<Rightarrow> Board \<Rightarrow> (Board \<times> Rand) + RolloutState" where
  "afterPly rng moveCount prevBlackCaptured prevWhiteCaptured tempBoard =
     (if moveCount > 20 \<and> moveCount mod 5 = 0 then
        (if blackCaptures tempBoard \<noteq> prevBlackCaptured \<or>
            whiteCaptures tempBoard \<noteq> prevWhiteCaptured
         then Inr (tempBoard, rng, moveCount, blackCaptures tempBoard, whiteCaptures tempBoard)
         else Inl (tempBoard, rng))
      else Inr (tempBoard, rng, moveCount, prevBlackCaptured, prevWhiteCaptured))"

definition playPly :: "Board \<Rightarrow> int \<Rightarrow> int \<Rightarrow> int \<Rightarrow> Position list \<times> Rand \<Rightarrow> (Board \<times> Rand) + RolloutState" where
  "playPly tempBoard moveCount prevBlackCaptured prevWhiteCaptured mr =
     (if fst mr = [] then Inl (tempBoard, snd mr)
      else afterPly (rest (snd mr)) (moveCount + 1) prevBlackCaptured prevWhiteCaptured
             (snd (placeStone tempBoard (fst mr ! (snd mr 0 mod length (fst mr))))))"

definition rolloutStep :: "RolloutState \<Rightarrow> (Board \<times> Rand) + RolloutState" where
  "rolloutStep st =
     (case st of (tempBoard, rng, moveCount, prevBlackCaptured, prevWhiteCaptured) \<Rightarrow>
        playPly tempBoard moveCount prevBlackCaptured prevWhiteCaptured
          (rolloutMoves tempBoard rng))"

lemma rolloutStep_count:
  "rolloutStep (tb, rng, moveCount, pb, pw) = Inr (tb', rng', moveCount', pb', pw') \<Longrightarrow>
     moveCount' = moveCount + 1"
  by (auto simp: rolloutStep_def playPly_def afterPly_def split: if_splits)

function rollout :: "int \<Rightarrow> RolloutState \<Rightarrow> Board \<times> Rand" where
  "rollout maxMoves (tempBoard, rng, moveCount, prevBlackCaptured, prevWhiteCaptured) =
     (if moveCount < maxMoves then
        (case rolloutStep (tempBoard, rng, moveCount, prevBlackCaptured, prevWhiteCaptured) of
           Inl r \<Rightarrow> r
         | Inr st \<Rightarrow> rollout maxMoves st)
      else (tempBoard, rng))"
  by pat_completeness auto
termination
proof (relation "measure (\<lambda>(maxMoves, tb, rng, moveCount, pb, pw). nat (maxMoves - moveCount))",
    goal_cases)
  case 1
  show ?case by simp
next
  case (2 maxMoves tempBoard rng moveCount pb pw st)
  obtain tb' rng' mc' pb' pw' where st: "st = (tb', rng', mc', pb', pw')" by (cases st)
  from rolloutStep_count[OF 2(2)[unfolded st]] 2(1) show ?case by (simp add: st)
qed

declare rollout.simps [simp del]

definition scoreRollout :: "Stone \<Rightarrow> Board \<times> Rand \<Rightarrow> real \<times> Rand" where
  "scoreRollout pl r =
     (if pl = BLACK
      then (if blackCaptures (fst r) > whiteCaptures (fst r) then 1 else 0)
      else (if whiteCaptures (fst r) > blackCaptures (fst r) then 1 else 0),
      snd r)"

definition simulateOn :: "Stone \<Rightarrow> Rand \<Rightarrow> Board \<Rightarrow> real \<times> Rand" where
  "simulateOn pl rng tempBoard =
     scoreRollout pl
       (rollout (40 + int (rng 0 mod 20))
          (tempBoard, rest rng, 0, blackCaptures tempBoard, whiteCaptures tempBoard))"

definition simulateGame :: "MCTSNode \<Rightarrow> nat list \<Rightarrow> Board \<Rightarrow> Rand \<Rightarrow> (real \<times> Rand) option" where
  "simulateGame rootNode path b rng =
     map_option (simulateOn (player (nodeAt rootNode path)) rng)
       (replayPath (parentChain rootNode path) b)"

text \<open>
  \<^verbatim>\<open>backpropagate\<close> updates the nodes from the node up to the root; here they are
  updated from the root down the path, which gives the same tree.
\<close>

definition countVisit :: "Stone \<Rightarrow> real \<Rightarrow> MCTSNode \<Rightarrow> MCTSNode" where
  "countVisit nodePlayer result cur =
     MCTSNode (move cur) (player cur) (visits cur + 1)
       (wins cur + (if player cur = nodePlayer then result else 1 - result))
       (children cur)"

fun backpropagate :: "Stone \<Rightarrow> real \<Rightarrow> nat list \<Rightarrow> MCTSNode \<Rightarrow> MCTSNode" where
  "backpropagate nodePlayer result [] cur = countVisit nodePlayer result cur"
| "backpropagate nodePlayer result (i # is) cur =
     MCTSNode (move cur) (player cur) (visits cur + 1)
       (wins cur + (if player cur = nodePlayer then result else 1 - result))
       ((children cur)[i := backpropagate nodePlayer result is (children cur ! i)])"

definition bestStep :: "MCTSNode \<Rightarrow> MCTSNode option \<times> int option \<Rightarrow> MCTSNode option \<times> int option" where
  "bestStep child st =
     (case st of (bestChild, bestScore) \<Rightarrow>
        if (case bestScore of None \<Rightarrow> True | Some s \<Rightarrow> visits child > s)
        then (Some child, Some (visits child))
        else (bestChild, bestScore))"

definition selectBestChild :: "MCTSNode \<Rightarrow> MCTSNode option" where
  "selectBestChild node =
     (if children node = [] then None
      else fst (fold bestStep (children node) (None, None)))"

text \<open>
  \<^verbatim>\<open>runMCTS\<close>: one pass of the loop is \<open>mctsIteration\<close>, the four phases in turn, each
  a function of the result of the one before. \<open>mctsLoop\<close> also returns the number of
  passes made.
\<close>

definition iterBackprop :: "MCTSNode \<Rightarrow> nat list \<Rightarrow> real \<times> Rand \<Rightarrow> MCTSNode \<times> Rand" where
  "iterBackprop rootNode path r =
     (backpropagate (player (nodeAt rootNode path)) (fst r) path rootNode, snd r)"

definition iterSimulate :: "Board \<Rightarrow> MCTSNode \<times> nat list \<times> Rand \<Rightarrow> (MCTSNode \<times> Rand) option" where
  "iterSimulate b e =
     (case e of (rootNode, path, rng) \<Rightarrow>
        map_option (iterBackprop rootNode path) (simulateGame rootNode path b rng))"

definition iterExpand :: "Board \<Rightarrow> MCTSNode \<Rightarrow> nat list \<times> Rand \<Rightarrow> (MCTSNode \<times> Rand) option" where
  "iterExpand b rootNode s =
     Option.bind (expandNode rootNode (fst s) b (snd s)) (iterSimulate b)"

definition mctsIteration :: "Pick \<Rightarrow> Board \<Rightarrow> AIConfig \<Rightarrow> MCTSNode \<times> Rand \<Rightarrow> (MCTSNode \<times> Rand) option" where
  "mctsIteration pick b config st =
     Option.bind (selectNode pick config (fst st) (snd st)) (iterExpand b (fst st))"

definition elapsed :: "int \<Rightarrow> int \<Rightarrow> int" where
  "elapsed now startTime = (now mod 2 ^ 32 - startTime mod 2 ^ 32) mod 2 ^ 32"

function mctsLoop :: "Pick \<Rightarrow> Board \<Rightarrow> AIConfig \<Rightarrow> int \<Rightarrow> Clock \<Rightarrow> int \<Rightarrow> MCTSNode \<times> Rand \<Rightarrow> ((MCTSNode \<times> Rand) \<times> int) option" where
  "mctsLoop pick b config startTime clock iterations st =
     (if iterations < simulationCount config \<and> elapsed (clock 0) startTime < MCTS_TIME_LIMIT
      then Option.bind (mctsIteration pick b config st)
             (mctsLoop pick b config startTime (rest clock) (iterations + 1))
      else Some (st, iterations))"
  by pat_completeness auto
termination
  by (relation "measure (\<lambda>(pick, b, config, startTime, clock, iterations, st).
        nat (simulationCount config - iterations))") auto

declare mctsLoop.simps [simp del]

definition runMCTS :: "Pick \<Rightarrow> Board \<Rightarrow> AIConfig \<Rightarrow> MCTSNode \<Rightarrow> Rand \<Rightarrow> Clock \<Rightarrow> ((MCTSNode \<times> Rand) \<times> int) option" where
  "runMCTS pick b config rootNode rng clock =
     mctsLoop pick b config (clock 0) (rest clock) 0 (rootNode, rng)"

text \<open>
  \<^verbatim>\<open>findBestMove\<close> returns the position and, beside it, the number of passes of the
  search loop that were made to find it.
\<close>

definition openingPoints :: "Position list" where
  "openingPoints =
     [Pos (BOARD_SIZE div 2) (BOARD_SIZE div 2),
      Pos 3 3, Pos 3 (BOARD_SIZE - 4), Pos (BOARD_SIZE - 4) 3, Pos (BOARD_SIZE - 4) (BOARD_SIZE - 4),
      Pos 3 (BOARD_SIZE div 2), Pos (BOARD_SIZE div 2) 3,
      Pos (BOARD_SIZE - 4) (BOARD_SIZE div 2), Pos (BOARD_SIZE div 2) (BOARD_SIZE - 4)]"

definition legalOpenings :: "Board \<Rightarrow> Position list" where
  "legalOpenings b = filter (isValidMove b) openingPoints"

definition pickNear :: "Position list \<Rightarrow> (MCTSNode \<times> Rand) \<times> int \<Rightarrow> Position \<times> int" where
  "pickNear backupMoves r =
     (case selectBestChild (fst (fst r)) of
        Some bestChild \<Rightarrow> (move bestChild, snd r)
      | None \<Rightarrow>
          if backupMoves \<noteq> []
          then (backupMoves ! (snd (fst r) 0 mod length backupMoves), snd r)
          else (noPosition, snd r))"

definition pickAny :: "Position list \<Rightarrow> (MCTSNode \<times> Rand) \<times> int \<Rightarrow> Position \<times> int" where
  "pickAny validMoves r =
     (case selectBestChild (fst (fst r)) of
        Some bestChild \<Rightarrow> (move bestChild, snd r)
      | None \<Rightarrow> (validMoves ! (snd (fst r) 0 mod length validMoves), snd r))"

definition findBestMove :: "Pick \<Rightarrow> Board \<Rightarrow> AIConfig \<Rightarrow> Rand \<Rightarrow> Clock \<Rightarrow> (Position \<times> int) option" where
  "findBestMove pick b config rng clock =
     (if (px (lastMove b) < 0 \<or> py (lastMove b) < 0) \<and> legalOpenings b \<noteq> []
      then Some (legalOpenings b ! (rng 0 mod length (legalOpenings b)), 0)
      else if px (lastMove b) \<ge> 0 \<and> py (lastMove b) \<ge> 0
      then map_option
             (pickNear (getValidMovesInRange b (px (lastMove b)) (py (lastMove b)) MCTS_RANGE_SMALL))
             (runMCTS pick b config (createRootNode b) rng clock)
      else if getLegalMoves b = [] then Some (noPosition, 0)
      else map_option (pickAny (getLegalMoves b))
             (runMCTS pick b config (createRootNode b) rng clock))"

subsection \<open>Boards, trees and sources to evaluate the search on\<close>

definition noPick :: Pick where
  "noPick = (\<lambda>node c. None)"

definition zeros :: "nat \<Rightarrow> nat" where
  "zeros = (\<lambda>i. 0)"

definition stillClock :: Clock where
  "stillClock = (\<lambda>i. 0)"

text \<open>
  A board with a stone on every point; a board with a black group around (5,5) that
  leaves one empty point, (6,6), within one cell of the last move.
\<close>

definition fullBoard :: Board where
  "fullBoard = initBoard\<lparr>board := (\<lambda>p. BLACK), lastMove := Pos 0 0\<rparr>"

definition clusterBoard :: Board where
  "clusterBoard = initBoard\<lparr>board :=
      (\<lambda>p. if p \<in> set [Pos 0 0, Pos 4 4, Pos 5 4, Pos 6 4, Pos 4 5, Pos 5 5, Pos 6 5, Pos 7 5,
                         Pos 4 6, Pos 5 6, Pos 7 6, Pos 5 7, Pos 6 7, Pos 7 7]
           then BLACK else EMPTY),
      lastMove := Pos 5 5\<rparr>"

text \<open>
  Black (0,0), White (0,1), Black (10,10), White (1,1): Black is to move, and a black
  stone at (1,0) leaves the two corner stones one liberty, at (2,0).
\<close>

definition cornerFight :: "Position list" where
  "cornerFight = [Pos 0 0, Pos 0 1, Pos 10 10, Pos 1 1]"

definition draws :: Rand where
  "draws = (\<lambda>i. if i = 1 then 1 else 0)"

text \<open>
  \<open>expandTwice\<close> expands the root and then the child the first expansion returned.
  \<open>replayDiverges\<close> says of the result that the node returned is the one reached by
  (1,0) and then (2,0), and that the board the reconstruction gives for it has a black
  stone at (1,0) and White to move, where the single replay has the point empty and
  Black to move.
\<close>

definition expandAgain :: "Board \<Rightarrow> MCTSNode \<times> nat list \<times> Rand \<Rightarrow> (MCTSNode \<times> nat list \<times> Rand) option" where
  "expandAgain b e = (case e of (rootNode, path, rng) \<Rightarrow> expandNode rootNode path b rng)"

definition expandTwice :: "Board \<Rightarrow> Rand \<Rightarrow> (MCTSNode \<times> nat list \<times> Rand) option" where
  "expandTwice b rng = Option.bind (expandNode (createRootNode b) [] b rng) (expandAgain b)"

definition replayDiverges :: "Board \<Rightarrow> MCTSNode \<times> nat list \<times> Rand \<Rightarrow> bool" where
  "replayDiverges b e =
     (case e of (rootNode, path, rng) \<Rightarrow>
        path = [1, 0] \<and>
        map move (parentChain rootNode path) = [Pos 2 0, Pos 1 0, noPosition] \<and>
        (case replayPath (parentChain rootNode path) b of
           None \<Rightarrow> False
         | Some tempBoard \<Rightarrow>
             board tempBoard (Pos 1 0) = BLACK \<and> currentPlayer tempBoard = WHITE \<and>
             board (replayOnce (parentChain rootNode path) b) (Pos 1 0) = EMPTY \<and>
             currentPlayer (replayOnce (parentChain rootNode path) b) = BLACK))"

text \<open>
  The moves of the children of the root are all legal on the board.
\<close>

definition rootValid :: "Board \<Rightarrow> MCTSNode \<Rightarrow> bool" where
  "rootValid b rootNode \<longleftrightarrow> list_all (\<lambda>c. isValidMove b (move c)) (children rootNode)"

section \<open>Facts about the stages of \<^verbatim>\<open>placeStone\<close> and the history\<close>

lemma captureDeadStones_fields:
  assumes "captureDeadStones b color = (b', n)"
  shows "currentPlayer b' = currentPlayer b" "koActive b' = koActive b"
    "lastMove b' = lastMove b" "prev_chain b' = prev_chain b" "current b' = current b"
    "next_chain b' = next_chain b"
    "blackLiberties b' = blackLiberties b" "whiteLiberties b' = whiteLiberties b"
  using assms by (auto simp: captureDeadStones_def Let_def split: prod.splits if_splits)

lemma captureDeadStones_captures:
  assumes "captureDeadStones b color = (b', n)"
  shows "blackCaptures b' = blackCaptures b + (if color = WHITE then n else 0)"
    "whiteCaptures b' = whiteCaptures b + (if color = BLACK then n else 0)"
  using assms by (auto simp: captureDeadStones_def Let_def split: prod.splits if_splits)

lemma captureLoop_fields:
  "captureLoop b t = (b', t') \<Longrightarrow>
     currentPlayer b' = currentPlayer b \<and> koActive b' = koActive b \<and>
     lastMove b' = lastMove b \<and> prev_chain b' = prev_chain b \<and> current b' = current b \<and>
     next_chain b' = next_chain b \<and>
     blackLiberties b' = blackLiberties b \<and> whiteLiberties b' = whiteLiberties b"
proof (induction b t rule: captureLoop.induct)
  case (1 b t)
  let ?opp = "if currentPlayer b = BLACK then WHITE else BLACK"
  obtain b1 n where cd: "captureDeadStones b ?opp = (b1, n)"
    by (cases "captureDeadStones b ?opp")
  note f = captureDeadStones_fields[OF cd]
  show ?case
  proof (cases "0 < n")
    case True
    then have "captureLoop b1 (t + n) = (b', t')"
      using "1.prems" cd by (subst (asm) captureLoop.simps) (simp add: Let_def)
    from "1.IH"[OF refl refl cd[symmetric] refl True this] f show ?thesis by simp
  next
    case False
    then have "b' = b1"
      using "1.prems" cd by (subst (asm) captureLoop.simps) (simp add: Let_def)
    with f show ?thesis by simp
  qed
qed

lemma captureLoop_result:
  "captureLoop b t = (b', t') \<Longrightarrow>
     t \<le> t' \<and> blackCaptures b \<le> blackCaptures b' \<and> whiteCaptures b \<le> whiteCaptures b' \<and>
     (t' = t \<longrightarrow> board b' = board b \<and> koPosition b' = koPosition b) \<and>
     (t' = t + 1 \<longrightarrow>
        (\<exists>p. isValidPosition p \<and>
             board b p = (if currentPlayer b = BLACK then WHITE else BLACK) \<and>
             board b' = (board b)(p := EMPTY) \<and> koPosition b' = p))"
proof (induction b t arbitrary: b' t' rule: captureLoop.induct)
  case (1 b t)
  let ?opp = "if currentPlayer b = BLACK then WHITE else BLACK"
  obtain b1 n where cd: "captureDeadStones b ?opp = (b1, n)"
    by (cases "captureDeadStones b ?opp")
  have opp: "?opp \<noteq> EMPTY" by simp
  from captureDeadStones_inv[OF opp cd] obtain visited where
    inv: "captureInv (board b) (koPosition b) ?opp (board b1, koPosition b1, visited, n)" ..
  note cap = captureDeadStones_captures[OF cd]
  have n0: "0 \<le> n" using inv by (simp add: captureInv_def)
  have cb: "blackCaptures b \<le> blackCaptures b1" "whiteCaptures b \<le> whiteCaptures b1"
    using cap n0 by auto
  show ?case
  proof (cases "0 < n")
    case True
    then have rec: "captureLoop b1 (t + n) = (b', t')"
      using "1.prems" cd by (subst (asm) captureLoop.simps) (simp add: Let_def)
    note ih = "1.IH"[OF refl refl cd[symmetric] refl True rec]
    have p1: "currentPlayer b1 = currentPlayer b" using captureDeadStones_fields[OF cd] by simp
    have "t' = t + 1 \<longrightarrow>
        (\<exists>p. isValidPosition p \<and> board b p = ?opp \<and>
             board b' = (board b)(p := EMPTY) \<and> koPosition b' = p)"
    proof
      assume "t' = t + 1"
      with ih True have "n = 1" "t' = t + n" by auto
      with ih have "board b' = board b1" "koPosition b' = koPosition b1" by auto
      moreover from inv \<open>n = 1\<close> obtain p where "isValidPosition p" "board b p = ?opp"
        "board b1 = (board b)(p := EMPTY)" "koPosition b1 = p"
        by (auto simp: captureInv_def)
      ultimately show "\<exists>p. isValidPosition p \<and> board b p = ?opp \<and>
             board b' = (board b)(p := EMPTY) \<and> koPosition b' = p" by auto
    qed
    with ih True cb show ?thesis by auto
  next
    case False
    then have "b' = b1" "t' = t + n"
      using "1.prems" cd by (subst (asm) captureLoop.simps, simp add: Let_def)+
    moreover have "n = 0" using False n0 by simp
    ultimately show ?thesis using inv cb by (auto simp: captureInv_def)
  qed
qed

lemma calculateLiberties_fields [simp]:
  "board (calculateLiberties b) = board b"
  "currentPlayer (calculateLiberties b) = currentPlayer b"
  "lastMove (calculateLiberties b) = lastMove b"
  "koPosition (calculateLiberties b) = koPosition b"
  "koActive (calculateLiberties b) = koActive b"
  "blackCaptures (calculateLiberties b) = blackCaptures b"
  "whiteCaptures (calculateLiberties b) = whiteCaptures b"
  "prev_chain (calculateLiberties b) = prev_chain b"
  "current (calculateLiberties b) = current b"
  "next_chain (calculateLiberties b) = next_chain b"
  by (simp_all add: calculateLiberties_def split: prod.splits)

lemma markKo_fields [simp]:
  "board (markKo pos (b, t)) = board b"
  "currentPlayer (markKo pos (b, t)) = currentPlayer b"
  "lastMove (markKo pos (b, t)) = lastMove b"
  "koPosition (markKo pos (b, t)) = koPosition b"
  "blackCaptures (markKo pos (b, t)) = blackCaptures b"
  "whiteCaptures (markKo pos (b, t)) = whiteCaptures b"
  "blackLiberties (markKo pos (b, t)) = blackLiberties b"
  "whiteLiberties (markKo pos (b, t)) = whiteLiberties b"
  "prev_chain (markKo pos (b, t)) = prev_chain b"
  "current (markKo pos (b, t)) = current b"
  "next_chain (markKo pos (b, t)) = next_chain b"
  by (simp_all add: markKo_def Let_def split: prod.splits)

lemma finishMove_fields [simp]:
  "board (finishMove b) = board b"
  "currentPlayer (finishMove b) = (if currentPlayer b = BLACK then WHITE else BLACK)"
  "lastMove (finishMove b) = lastMove b"
  "koPosition (finishMove b) = koPosition b"
  "koActive (finishMove b) = koActive b"
  "blackCaptures (finishMove b) = blackCaptures b"
  "whiteCaptures (finishMove b) = whiteCaptures b"
  "prev_chain (finishMove b) = current b # prev_chain b"
  "next_chain (finishMove b) = []"
  by (simp_all add: finishMove_def switchPlayer_def saveBoardState_def)

lemma finishMove_current [simp]:
  "current (finishMove b) = createHistoryNode (finishMove b)"
  by (simp add: finishMove_def switchPlayer_def saveBoardState_def createHistoryNode_def)

lemma placeStone_captures:
  "blackCaptures b \<le> blackCaptures (snd (placeStone b pos)) \<and>
   whiteCaptures b \<le> whiteCaptures (snd (placeStone b pos))"
proof (cases "isValidMove b pos")
  case False
  then show ?thesis by (simp add: placeStone_def)
next
  case True
  obtain b4 t where cl: "captureLoop (putStone b pos) 0 = (b4, t)"
    by (cases "captureLoop (putStone b pos) 0")
  from captureLoop_result[OF cl] have
    "blackCaptures (putStone b pos) \<le> blackCaptures b4"
    "whiteCaptures (putStone b pos) \<le> whiteCaptures b4" by auto
  then show ?thesis using True cl by (simp add: placeStone_def putStone_def)
qed

lemma placeStone_historyInv:
  assumes "historyInv b" "placeStone b pos = (True, b')"
  shows "historyInv b'"
proof -
  have v: "isValidMove b pos" using assms(2) by (auto simp: placeStone_def split: if_splits)
  obtain b4 t where cl: "captureLoop (putStone b pos) 0 = (b4, t)"
    by (cases "captureLoop (putStone b pos) 0")
  have b': "b' = finishMove (markKo pos (b4, t))"
    using assms(2) v cl by (simp add: placeStone_def)
  have f: "prev_chain b4 = prev_chain b" "current b4 = current b"
    using captureLoop_fields[OF cl] by (simp_all add: putStone_def)
  have s: "synced b'" unfolding synced_def b' by simp
  have ch: "chain b' = (rev (prev_chain b) @ [current b]) @ [current b']"
    unfolding chain_def b' using f by simp
  have le: "capturesLe (current b) (current b')"
    using placeStone_captures[of b pos] assms s
    by (simp add: capturesLe_def historyInv_def synced_def createHistoryNode_def)
  have sorted: "sorted_wrt capturesLe (rev (prev_chain b) @ [current b])"
    using assms(1) by (simp add: historyInv_def chain_def sorted_wrt_append)
  have "\<forall>h \<in> set (rev (prev_chain b) @ [current b]). capturesLe h (current b')"
  proof
    fix h assume "h \<in> set (rev (prev_chain b) @ [current b])"
    then have "capturesLe h (current b)"
      using sorted by (auto simp: sorted_wrt_append capturesLe_def)
    with le show "capturesLe h (current b')" by (auto simp: capturesLe_def)
  qed
  with sorted have "sorted_wrt capturesLe (chain b')"
    unfolding ch by (simp add: sorted_wrt_append)
  with s show ?thesis by (simp add: historyInv_def)
qed

lemma restoreCurrent_synced: "synced (restoreCurrent b)"
  by (simp add: synced_def restoreCurrent_def createHistoryNode_def)

lemma undoMove_historyInv:
  assumes "historyInv b" "undoMove b = (True, b')"
  shows "historyInv b'"
proof -
  from assms(2) obtain h hs where p: "prev_chain b = h # hs"
    and b': "b' = restoreCurrent (b\<lparr>current := h, prev_chain := hs,
                                   next_chain := current b # next_chain b\<rparr>)"
    by (auto simp: undoMove_def split: list.splits)
  have "chain b' = chain b" unfolding b' chain_def by (simp add: restoreCurrent_def p)
  then show ?thesis using assms(1) restoreCurrent_synced b' by (simp add: historyInv_def)
qed

lemma redoMove_historyInv:
  assumes "historyInv b" "redoMove b = (True, b')"
  shows "historyInv b'"
proof -
  from assms(2) obtain h hs where p: "next_chain b = h # hs"
    and b': "b' = restoreCurrent (b\<lparr>current := h, next_chain := hs,
                                   prev_chain := current b # prev_chain b\<rparr>)"
    by (auto simp: redoMove_def split: list.splits)
  have "chain b' = chain b" unfolding b' chain_def by (simp add: restoreCurrent_def p)
  then show ?thesis using assms(1) restoreCurrent_synced b' by (simp add: historyInv_def)
qed

lemma reachable_historyInv: "reachable b \<Longrightarrow> historyInv b"
proof (induction rule: reachable.induct)
  case init
  show ?case
    by (simp add: historyInv_def synced_def chain_def initBoard_def createHistoryNode_def)
qed (auto intro: placeStone_historyInv undoMove_historyInv redoMove_historyInv)

lemma playMoves_reachable:
  "reachable b \<Longrightarrow> playMoves ps b = Some b' \<Longrightarrow> reachable b'"
proof (induction ps arbitrary: b)
  case Nil
  then show ?case by simp
next
  case (Cons p ps)
  obtain ok b1 where ps: "placeStone b p = (ok, b1)" by (cases "placeStone b p")
  with Cons.prems have ok: "ok" and rest: "playMoves ps b1 = Some b'"
    by (auto split: if_splits bool.splits)
  from reachable.place[OF Cons.prems(1)] ps ok have "reachable b1" by simp
  from Cons.IH[OF this rest] show ?case .
qed

lemma placeStone_koActive:
  assumes "fst (placeStone b pos)"
  shows "koActive (snd (placeStone b pos)) \<longleftrightarrow> koCondition b pos"
proof -
  have v: "isValidMove b pos" using assms by (auto simp: placeStone_def split: if_splits)
  obtain b4 t where cl: "captureLoop (putStone b pos) 0 = (b4, t)"
    by (cases "captureLoop (putStone b pos) 0")
  have k: "koActive b4 = False" using captureLoop_fields[OF cl] by (simp add: putStone_def)
  obtain vis grp where d: "dfsMarkGroup (board b4) pos (currentPlayer b4) (noMarks, []) = (vis, grp)"
    by (cases "dfsMarkGroup (board b4) pos (currentPlayer b4) (noMarks, [])")
  show ?thesis
    using v cl k d
    by (simp add: placeStone_def markKo_def koCondition_def totalCaptured_def ownGroup_def
        ownLiberties_def)
qed

section \<open>Legality and placing a stone\<close>

text \<open>
  C1. \<^verbatim>\<open>isValidMove\<close> is false exactly when the position is off the board, occupied,
  the active ko point or a suicide. When it is false, \<^verbatim>\<open>placeStone\<close> returns false and
  the board it leaves is the board it was given, in every field (grid, player, last
  move, ko fields, capture and liberty counts, history). When it is true,
  \<^verbatim>\<open>placeStone\<close> returns true.
\<close>

theorem placeStone_invalid_unchanged:
  "(isValidMove b pos \<longleftrightarrow>
      isValidPosition pos \<and> board b pos = EMPTY \<and> \<not> isKoMove b pos \<and> \<not> isSuicideMove b pos) \<and>
   (\<not> isValidMove b pos \<longrightarrow> placeStone b pos = (False, b)) \<and>
   (isValidMove b pos \<longrightarrow> fst (placeStone b pos))"
  by (simp add: placeStone_def isValidMove_def)

theorem placeStone_invalid_unchanged_witness:
  "\<not> isValidMove initBoard noPosition \<and>
   placeStone initBoard noPosition = (False, initBoard) \<and>
   isValidMove initBoard (Pos 3 3) \<and> fst (placeStone initBoard (Pos 3 3)) \<and>
   \<not> isValidMove (snd (placeStone initBoard (Pos 3 3))) (Pos 3 3) \<and>
   placeStone (snd (placeStone initBoard (Pos 3 3))) (Pos 3 3)
     = (False, snd (placeStone initBoard (Pos 3 3)))"
proof -
  have a: "\<not> isValidMove initBoard noPosition" by code_simp
  have b: "isValidMove initBoard (Pos 3 3)" by code_simp
  have c: "\<not> isValidMove (snd (placeStone initBoard (Pos 3 3))) (Pos 3 3)" by code_simp
  show ?thesis
    using a b c placeStone_invalid_unchanged[of initBoard noPosition]
      placeStone_invalid_unchanged[of initBoard "Pos 3 3"]
      placeStone_invalid_unchanged[of "snd (placeStone initBoard (Pos 3 3))" "Pos 3 3"]
    by simp
qed

section \<open>Suicide is decided before captures\<close>




section \<open>Undo and redo of moves\<close>

lemma twoMoves: "\<exists>b. playMoves [Pos 3 3, Pos 3 4] initBoard = Some b \<and> fst (undoMove b)"
proof -
  have "case playMoves [Pos 3 3, Pos 3 4] initBoard of None \<Rightarrow> False | Some b \<Rightarrow> fst (undoMove b)"
    by code_simp
  then show ?thesis by (cases "playMoves [Pos 3 3, Pos 3 4] initBoard") auto
qed

text \<open>
  C4. On every board of a game on which \<^verbatim>\<open>undoMove\<close> succeeds, \<^verbatim>\<open>redoMove\<close>
  succeeds right after it and brings back the grid, both capture counts and both
  liberty counts the board had before the undo. This holds for histories of any
  length, so for those of at most 50 moves.
\<close>

theorem undo_redo_roundtrip:
  assumes "reachable b" and "undoMove b = (True, b1)"
  shows "\<exists>b2. redoMove b1 = (True, b2) \<and> board b2 = board b \<and>
           blackCaptures b2 = blackCaptures b \<and> whiteCaptures b2 = whiteCaptures b \<and>
           blackLiberties b2 = blackLiberties b \<and> whiteLiberties b2 = whiteLiberties b"
proof -
  have s: "current b = createHistoryNode b"
    using reachable_historyInv[OF assms(1)] by (simp add: historyInv_def synced_def)
  from assms(2) obtain h hs where p: "prev_chain b = h # hs"
    and b1: "b1 = restoreCurrent (b\<lparr>current := h, prev_chain := hs,
                                   next_chain := current b # next_chain b\<rparr>)"
    by (auto simp: undoMove_def split: list.splits)
  have n: "next_chain b1 = current b # next_chain b" unfolding b1 by (simp add: restoreCurrent_def)
  show ?thesis
    unfolding redoMove_def n
    by (simp add: restoreCurrent_def s createHistoryNode_def)
qed

theorem undo_redo_roundtrip_witness:
  "\<exists>b b1 b2. playMoves [Pos 3 3, Pos 3 4] initBoard = Some b \<and> reachable b \<and>
      undoMove b = (True, b1) \<and> redoMove b1 = (True, b2) \<and> board b2 = board b \<and>
      blackCaptures b2 = blackCaptures b \<and> whiteCaptures b2 = whiteCaptures b \<and>
      blackLiberties b2 = blackLiberties b \<and> whiteLiberties b2 = whiteLiberties b"
proof -
  from twoMoves obtain b where b: "playMoves [Pos 3 3, Pos 3 4] initBoard = Some b"
    "fst (undoMove b)" by blast
  have r: "reachable b" using playMoves_reachable[OF reachable.init b(1)] .
  have u: "undoMove b = (True, snd (undoMove b))" using b(2) by (cases "undoMove b") simp
  from undo_redo_roundtrip[OF r u] b(1) r u show ?thesis by blast
qed

text \<open>
  C5. After one or more successful calls of \<^verbatim>\<open>undoMove\<close> there are nodes after the
  current one; a successful \<^verbatim>\<open>placeStone\<close> then discards them all, and \<^verbatim>\<open>redoMove\<close>
  returns false and leaves the board as it is.
\<close>

theorem redo_after_new_move_fails:
  assumes "undoMoves (Suc n) b = Some b1" and "placeStone b1 pos = (True, b2)"
  shows "next_chain b1 \<noteq> [] \<and> next_chain b2 = [] \<and> redoMove b2 = (False, b2)"
proof -
  have a: "undoMoves k b = Some b' \<Longrightarrow> 0 < k \<Longrightarrow> next_chain b' \<noteq> []" for k b b'
  proof (induction k arbitrary: b)
    case 0
    then show ?case by simp
  next
    case (Suc k)
    from Suc.prems(1) obtain c where c: "undoMove b = (True, c)" "undoMoves k c = Some b'"
      by (auto split: prod.splits bool.splits)
    from c(1) have nc: "next_chain c \<noteq> []"
      by (auto simp: undoMove_def restoreCurrent_def split: list.splits)
    show ?case
    proof (cases k)
      case 0
      with c nc show ?thesis by simp
    next
      case (Suc j)
      with Suc.IH[OF c(2)] show ?thesis by simp
    qed
  qed
  have v: "isValidMove b1 pos" using assms(2) by (auto simp: placeStone_def split: if_splits)
  have "b2 = finishMove (markKo pos (captureLoop (putStone b1 pos) 0))"
    using assms(2) v by (simp add: placeStone_def)
  then have "next_chain b2 = []" by simp
  then show ?thesis using a[OF assms(1)] by (simp add: redoMove_def)
qed

theorem redo_after_new_move_fails_witness:
  "\<exists>b b1 b2. playMoves [Pos 3 3, Pos 3 4] initBoard = Some b \<and>
      undoMoves (Suc 0) b = Some b1 \<and> placeStone b1 (Pos 15 15) = (True, b2) \<and>
      next_chain b1 \<noteq> [] \<and> next_chain b2 = [] \<and> redoMove b2 = (False, b2)"
proof -
  have "case playMoves [Pos 3 3, Pos 3 4] initBoard of None \<Rightarrow> False
        | Some b \<Rightarrow> fst (undoMove b) \<and> fst (placeStone (snd (undoMove b)) (Pos 15 15))"
    by code_simp
  then obtain b where b: "playMoves [Pos 3 3, Pos 3 4] initBoard = Some b"
    "fst (undoMove b)" "fst (placeStone (snd (undoMove b)) (Pos 15 15))"
    by (cases "playMoves [Pos 3 3, Pos 3 4] initBoard") auto
  let ?b1 = "snd (undoMove b)"
  let ?b2 = "snd (placeStone ?b1 (Pos 15 15))"
  have u: "undoMoves (Suc 0) b = Some ?b1" using b(2) by (cases "undoMove b") simp
  have p: "placeStone ?b1 (Pos 15 15) = (True, ?b2)"
    using b(3) by (cases "placeStone ?b1 (Pos 15 15)") simp
  from redo_after_new_move_fails[OF u p] b(1) u p show ?thesis by blast
qed

section \<open>The capture counters\<close>

lemma captureMoves_undo:
  "\<exists>b. playMoves captureMoves initBoard = Some b \<and> fst (undoMove b) \<and>
       blackCaptures (snd (undoMove b)) < blackCaptures b"
proof -
  have "case playMoves captureMoves initBoard of None \<Rightarrow> False
        | Some b \<Rightarrow> fst (undoMove b) \<and> blackCaptures (snd (undoMove b)) < blackCaptures b"
    by code_simp
  then show ?thesis by (cases "playMoves captureMoves initBoard") auto
qed

text \<open>
  C10, as the claim states it, fails: there is a board of a game on which \<^verbatim>\<open>undoMove\<close>
  succeeds and leaves \<^verbatim>\<open>blackCaptures\<close> smaller than it was (the move undone was a
  capture, and the counters are restored from the snapshot before it).
\<close>

theorem undo_decreases_captures:
  "\<exists>b. reachable b \<and> fst (undoMove b) \<and> blackCaptures (snd (undoMove b)) < blackCaptures b"
  using captureMoves_undo playMoves_reachable[OF reachable.init] by blast

text \<open>
  C10, amended. \<^verbatim>\<open>placeStone\<close> never decreases either capture counter, on any
  board. On the boards of a game \<^verbatim>\<open>redoMove\<close> never decreases either counter, and
  \<^verbatim>\<open>undoMove\<close> never increases one: it restores the counters of the snapshot before.
\<close>

theorem captures_monotone_amended:
  assumes "reachable b"
  shows "(\<forall>c pos. blackCaptures c \<le> blackCaptures (snd (placeStone c pos)) \<and>
                  whiteCaptures c \<le> whiteCaptures (snd (placeStone c pos))) \<and>
         blackCaptures b \<le> blackCaptures (snd (redoMove b)) \<and>
         whiteCaptures b \<le> whiteCaptures (snd (redoMove b)) \<and>
         blackCaptures (snd (undoMove b)) \<le> blackCaptures b \<and>
         whiteCaptures (snd (undoMove b)) \<le> whiteCaptures b"
proof -
  from reachable_historyInv[OF assms] have s: "current b = createHistoryNode b"
    and so: "sorted_wrt capturesLe (rev (prev_chain b) @ current b # next_chain b)"
    unfolding historyInv_def synced_def chain_def by blast+
  have cur: "h_blackCaptures (current b) = blackCaptures b"
    "h_whiteCaptures (current b) = whiteCaptures b"
    using s by (simp_all add: createHistoryNode_def)
  have redo: "blackCaptures b \<le> blackCaptures (snd (redoMove b)) \<and>
         whiteCaptures b \<le> whiteCaptures (snd (redoMove b))"
  proof (cases "next_chain b")
    case Nil
    then show ?thesis by (simp add: redoMove_def)
  next
    case (Cons h hs)
    with so have "capturesLe (current b) h" by (simp add: sorted_wrt_append)
    then show ?thesis using Cons cur by (simp add: redoMove_def restoreCurrent_def capturesLe_def)
  qed
  have undo: "blackCaptures (snd (undoMove b)) \<le> blackCaptures b \<and>
         whiteCaptures (snd (undoMove b)) \<le> whiteCaptures b"
  proof (cases "prev_chain b")
    case Nil
    then show ?thesis by (simp add: undoMove_def)
  next
    case (Cons h hs)
    with so have "capturesLe h (current b)" by (simp add: sorted_wrt_append)
    then show ?thesis using Cons cur by (simp add: undoMove_def restoreCurrent_def capturesLe_def)
  qed
  show ?thesis using placeStone_captures redo undo by blast
qed

theorem captures_monotone_amended_witness:
  "\<exists>b. playMoves captureMoves initBoard = Some b \<and> reachable b \<and>
       blackCaptures b \<le> blackCaptures (snd (placeStone b (Pos 5 5))) \<and>
       blackCaptures b \<le> blackCaptures (snd (redoMove b)) \<and>
       blackCaptures (snd (undoMove b)) \<le> blackCaptures b"
proof -
  from captureMoves_undo obtain b where b: "playMoves captureMoves initBoard = Some b" by blast
  have r: "reachable b" using playMoves_reachable[OF reachable.init b] .
  from captures_monotone_amended[OF r] b r show ?thesis by blast
qed

section \<open>The winner\<close>

subsection \<open>Regions\<close>

lemma region_valid:
  assumes "isValidPosition p" "g p = EMPTY" "q \<in> region g p"
  shows "isValidPosition q \<and> g q = EMPTY"
proof -
  from assms(3) have "(p, q) \<in> (emptyAdj g)\<^sup>*" by (simp add: region_def)
  then show ?thesis using assms(1,2)
    by (induction rule: rtrancl_induct) (auto simp: emptyAdj_def)
qed

lemma region_finite:
  assumes "isValidPosition p" "g p = EMPTY"
  shows "finite (region g p)"
proof (rule finite_subset[OF _ finite_valid])
  show "region g p \<subseteq> {q. isValidPosition q}"
    using region_valid[of p g, OF assms] by blast
qed

lemma region_step:
  assumes "a \<in> region g p" "isValidPosition a" "g a = EMPTY" "d \<in> set (zip DX DY)"
    "touches g a d EMPTY"
  shows "nbr a d \<in> region g p"
proof -
  have "(a, nbr a d) \<in> emptyAdj g"
    using assms(2-5) by (auto simp: emptyAdj_def touches_def)
  moreover have "(p, a) \<in> (emptyAdj g)\<^sup>*" using assms(1) by (simp add: region_def)
  ultimately have "(p, nbr a d) \<in> (emptyAdj g)\<^sup>*" by (rule rtrancl_into_rtrancl[rotated])
  then show ?thesis by (simp add: region_def)
qed

lemma floodInner_flags:
  assumes inv: "floodInner g V p cur S (Q, W, n, tb, tw)"
    and e: "touches g cur d EMPTY \<longrightarrow> W (nbr cur d)"
    and b: "tb' \<longleftrightarrow> tb \<or> touches g cur d BLACK"
    and w: "tw' \<longleftrightarrow> tw \<or> touches g cur d WHITE"
  shows "floodInner g V p cur (insert d S) (Q, W, n, tb', tw')"
proof -
  let ?A = "newMarks V W - set Q - {cur}"
  from inv have base: "floodBase g V p Q W n" and c: "cur \<notin> set Q" "cur \<in> newMarks V W"
    and s: "seenAround g W ?A"
    and se: "\<forall>d \<in> S. touches g cur d EMPTY \<longrightarrow> W (nbr cur d)"
    and tb: "tb \<longleftrightarrow> touchAround g ?A BLACK \<or> (\<exists>d \<in> S. touches g cur d BLACK)"
    and tw: "tw \<longleftrightarrow> touchAround g ?A WHITE \<or> (\<exists>d \<in> S. touches g cur d WHITE)"
    unfolding floodInner_def prod.case by blast+
  have se': "\<forall>x \<in> insert d S. touches g cur x EMPTY \<longrightarrow> W (nbr cur x)"
    using se e by blast
  have tb': "tb' \<longleftrightarrow> touchAround g ?A BLACK \<or> (\<exists>x \<in> insert d S. touches g cur x BLACK)"
    using tb b by blast
  have tw': "tw' \<longleftrightarrow> touchAround g ?A WHITE \<or> (\<exists>x \<in> insert d S. touches g cur x WHITE)"
    using tw w by blast
  show ?thesis
    unfolding floodInner_def prod.case
    using base c s se' tb' tw' by blast
qed

lemma floodInner_push:
  assumes inv: "floodInner g V p cur S (Q, W, n, tb, tw)"
    and ctx: "isValidPosition p" "g p = EMPTY" "\<forall>q \<in> region g p. \<not> V q"
    and d: "d \<in> set (zip DX DY)"
    and push: "isValidPosition (nbr cur d)" "g (nbr cur d) = EMPTY" "\<not> W (nbr cur d)"
  shows "floodInner g V p cur (insert d S)
           (Q @ [nbr cur d], W(nbr cur d := True), n + 1, tb, tw)"
proof -
  let ?D = "newMarks V W"
  let ?A = "?D - set Q - {cur}"
  let ?next = "nbr cur d"
  let ?W' = "W(?next := True)"
  from inv have base: "floodBase g V p Q W n" and c: "cur \<notin> set Q" "cur \<in> ?D"
    and s: "seenAround g W ?A"
    and se: "\<forall>d \<in> S. touches g cur d EMPTY \<longrightarrow> W (nbr cur d)"
    and tb: "tb \<longleftrightarrow> touchAround g ?A BLACK \<or> (\<exists>d \<in> S. touches g cur d BLACK)"
    and tw: "tw \<longleftrightarrow> touchAround g ?A WHITE \<or> (\<exists>d \<in> S. touches g cur d WHITE)"
    unfolding floodInner_def prod.case by blast+
  from base have b1: "\<forall>q. V q \<longrightarrow> W q" and b2: "?D \<subseteq> region g p" and b3: "set Q \<subseteq> ?D"
    and b4: "distinct Q" and b5: "n = int (card ?D)" and b6: "p \<in> ?D"
    unfolding floodBase_def by blast+
  have curR: "cur \<in> region g p" using c(2) b2 by blast
  then have curv: "isValidPosition cur" "g cur = EMPTY" using region_valid[of p g, OF ctx(1,2)] by blast+
  have te: "touches g cur d EMPTY" using push by (simp add: touches_def)
  have nextR: "?next \<in> region g p" by (rule region_step[OF curR curv d te])
  then have nV: "\<not> V ?next" using ctx(3) by blast
  have D': "newMarks V ?W' = insert ?next ?D" using nV by (auto simp: newMarks_def)
  have nD: "?next \<notin> ?D" using push(3) by (simp add: newMarks_def)
  have fin: "finite ?D" using b2 region_finite[of p g, OF ctx(1,2)] by (rule finite_subset)
  have card: "n + 1 = int (card (newMarks V ?W'))" using D' nD fin b5 by simp
  have curne: "cur \<noteq> ?next" using c(2) push(3) by (auto simp: newMarks_def)
  have nQ: "?next \<notin> set Q" using b3 nD by blast
  have A': "newMarks V ?W' - set (Q @ [?next]) - {cur} = ?A" using D' nD by auto
  have base': "floodBase g V p (Q @ [?next]) ?W' (n + 1)"
    unfolding floodBase_def
  proof (intro conjI)
    show "\<forall>q. V q \<longrightarrow> ?W' q" using b1 by simp
    show "newMarks V ?W' \<subseteq> region g p" using D' nextR b2 by simp
    show "set (Q @ [?next]) \<subseteq> newMarks V ?W'" using D' b3 by auto
    show "distinct (Q @ [?next])" using b4 nQ by simp
    show "n + 1 = int (card (newMarks V ?W'))" by (rule card)
    show "p \<in> newMarks V ?W'" using D' b6 by simp
  qed
  have c': "cur \<notin> set (Q @ [?next])" "cur \<in> newMarks V ?W'"
    using c curne D' by auto
  have s': "seenAround g ?W' ?A" using s by (simp add: seenAround_def)
  have se': "\<forall>x \<in> insert d S. touches g cur x EMPTY \<longrightarrow> ?W' (nbr cur x)"
    using se by simp
  have nb: "\<not> touches g cur d BLACK" "\<not> touches g cur d WHITE"
    using push(2) by (simp_all add: touches_def)
  have tb': "tb \<longleftrightarrow> touchAround g ?A BLACK \<or> (\<exists>x \<in> insert d S. touches g cur x BLACK)"
    using tb nb(1) by blast
  have tw': "tw \<longleftrightarrow> touchAround g ?A WHITE \<or> (\<exists>x \<in> insert d S. touches g cur x WHITE)"
    using tw nb(2) by blast
  show ?thesis
    unfolding floodInner_def prod.case A'
    using base' c' s' se' tb' tw' by blast
qed

lemma floodStep_inner:
  assumes inv: "floodInner g V p cur S st"
    and ctx: "isValidPosition p" "g p = EMPTY" "\<forall>q \<in> region g p. \<not> V q"
    and d: "d \<in> set (zip DX DY)"
  shows "floodInner g V p cur (insert d S) (floodStep g cur d st)"
proof -
  obtain Q W n tb tw where st: "st = (Q, W, n, tb, tw)" by (cases st)
  let ?next = "nbr cur d"
  have bounds: "(px cur + fst d < 0 \<or> BOARD_SIZE \<le> px cur + fst d \<or> py cur + snd d < 0 \<or>
      BOARD_SIZE \<le> py cur + snd d) \<longleftrightarrow> \<not> isValidPosition ?next"
    by (auto simp: isValidPosition_def nbr_def)
  have nextdef: "Pos (px cur + fst d) (py cur + snd d) = ?next" by (simp add: nbr_def)
  have step: "floodStep g cur d st =
     (if \<not> isValidPosition ?next then (Q, W, n, tb, tw)
      else if g ?next = EMPTY \<and> \<not> W ?next then (Q @ [?next], W(?next := True), n + 1, tb, tw)
      else if g ?next = BLACK then (Q, W, n, True, tw)
      else if g ?next = WHITE then (Q, W, n, tb, True)
      else (Q, W, n, tb, tw))"
    unfolding floodStep_def st prod.case Let_def nextdef bounds by simp
  note inv' = inv[unfolded st]
  consider (out) "\<not> isValidPosition ?next"
    | (push) "isValidPosition ?next" "g ?next = EMPTY" "\<not> W ?next"
    | (seen) "isValidPosition ?next" "g ?next = EMPTY" "W ?next"
    | (black) "isValidPosition ?next" "g ?next = BLACK"
    | (white) "isValidPosition ?next" "g ?next = WHITE"
    by (cases "g ?next") blast+
  then show ?thesis
  proof cases
    case out
    then have r: "floodStep g cur d st = (Q, W, n, tb, tw)" by (simp add: step)
    show ?thesis unfolding r
      by (rule floodInner_flags[OF inv']) (use out in \<open>simp_all add: touches_def\<close>)
  next
    case seen
    then have r: "floodStep g cur d st = (Q, W, n, tb, tw)" by (simp add: step)
    show ?thesis unfolding r
      by (rule floodInner_flags[OF inv']) (use seen in \<open>simp_all add: touches_def\<close>)
  next
    case black
    then have r: "floodStep g cur d st = (Q, W, n, True, tw)" by (simp add: step)
    show ?thesis unfolding r
      by (rule floodInner_flags[OF inv']) (use black in \<open>simp_all add: touches_def\<close>)
  next
    case white
    then have r: "floodStep g cur d st = (Q, W, n, tb, True)" by (simp add: step)
    show ?thesis unfolding r
      by (rule floodInner_flags[OF inv']) (use white in \<open>simp_all add: touches_def\<close>)
  next
    case push
    then have r: "floodStep g cur d st = (Q @ [?next], W(?next := True), n + 1, tb, tw)"
      by (simp add: step)
    show ?thesis unfolding r by (rule floodInner_push[OF inv' ctx d push])
  qed
qed

lemma floodStep_fold_inner:
  assumes inv: "floodInner g V p cur S st"
    and ctx: "isValidPosition p" "g p = EMPTY" "\<forall>q \<in> region g p. \<not> V q"
    and ds: "set ds \<subseteq> set (zip DX DY)"
  shows "floodInner g V p cur (S \<union> set ds) (fold (floodStep g cur) ds st)"
  using inv ds
proof (induction ds arbitrary: S st)
  case Nil
  then show ?case by simp
next
  case (Cons d ds)
  from Cons.prems(2) have d: "d \<in> set (zip DX DY)" and ds: "set ds \<subseteq> set (zip DX DY)" by auto
  have "floodInner g V p cur (insert d S) (floodStep g cur d st)"
    by (rule floodStep_inner[OF Cons.prems(1) ctx d])
  from Cons.IH[OF this ds] show ?case by simp
qed

lemma floodOuter_pop:
  assumes "floodOuter g V p (cur # waiting, W, n, tb, tw)"
  shows "floodInner g V p cur {} (waiting, W, n, tb, tw)"
proof -
  let ?D = "newMarks V W"
  from assms have base: "floodBase g V p (cur # waiting) W n"
    and s: "seenAround g W (?D - set (cur # waiting))"
    and tb: "tb \<longleftrightarrow> touchAround g (?D - set (cur # waiting)) BLACK"
    and tw: "tw \<longleftrightarrow> touchAround g (?D - set (cur # waiting)) WHITE"
    unfolding floodOuter_def prod.case by blast+
  have A: "?D - set (cur # waiting) = ?D - set waiting - {cur}" by auto
  have base': "floodBase g V p waiting W n" and c: "cur \<notin> set waiting" "cur \<in> ?D"
    using base by (auto simp: floodBase_def)
  note s' = s[unfolded A] and tb' = tb[unfolded A] and tw' = tw[unfolded A]
  show ?thesis
    unfolding floodInner_def prod.case
    using base' c s' tb' tw' by simp
qed

lemma floodInner_done:
  assumes "floodInner g V p cur (set (zip DX DY)) st"
  shows "floodOuter g V p st"
proof -
  obtain Q W n tb tw where st: "st = (Q, W, n, tb, tw)" by (cases st)
  let ?D = "newMarks V W"
  let ?A = "?D - set Q - {cur}"
  let ?S = "set (zip DX DY)"
  from assms have base: "floodBase g V p Q W n" and c: "cur \<notin> set Q" "cur \<in> ?D"
    and s: "seenAround g W ?A"
    and se: "\<forall>d \<in> ?S. touches g cur d EMPTY \<longrightarrow> W (nbr cur d)"
    and tb: "tb \<longleftrightarrow> touchAround g ?A BLACK \<or> (\<exists>d \<in> ?S. touches g cur d BLACK)"
    and tw: "tw \<longleftrightarrow> touchAround g ?A WHITE \<or> (\<exists>d \<in> ?S. touches g cur d WHITE)"
    unfolding st floodInner_def prod.case by blast+
  have s': "seenAround g W (?D - set Q)"
    using s se unfolding seenAround_def by blast
  have tb': "tb \<longleftrightarrow> touchAround g (?D - set Q) BLACK"
    using tb c unfolding touchAround_def by blast
  have tw': "tw \<longleftrightarrow> touchAround g (?D - set Q) WHITE"
    using tw c unfolding touchAround_def by blast
  show ?thesis unfolding st floodOuter_def prod.case using base s' tb' tw' by blast
qed

lemma flood_outer:
  assumes "floodOuter g V p st"
    and ctx: "isValidPosition p" "g p = EMPTY" "\<forall>q \<in> region g p. \<not> V q"
  shows "floodOuter g V p (flood g st) \<and> fst (flood g st) = []"
  using assms
proof (induction g st rule: flood.induct)
  case (1 g queue visited territorySize touchesBlack touchesWhite)
  note ctx' = "1.prems"(2-4)
  show ?case
  proof (cases queue)
    case Nil
    then show ?thesis using "1.prems"(1) by (simp add: flood.simps)
  next
    case (Cons cur waiting)
    let ?st = "fold (floodStep g cur) (zip DX DY)
                 (waiting, visited, territorySize, touchesBlack, touchesWhite)"
    have "floodInner g V p cur {} (waiting, visited, territorySize, touchesBlack, touchesWhite)"
      using "1.prems"(1) unfolding Cons by (rule floodOuter_pop)
    from floodStep_fold_inner[OF this ctx' subset_refl]
    have "floodOuter g V p ?st" by (simp add: floodInner_done)
    from "1.IH"[OF Cons this ctx'] show ?thesis by (simp add: flood.simps Cons)
  qed
qed

lemma flood_region:
  assumes ctx: "isValidPosition p" "g p = EMPTY" "\<forall>q \<in> region g p. \<not> V q"
    and res: "flood g ([p], V(p := True), 1, False, False) = (Q, W, n, tb, tw)"
  shows "(\<forall>q. W q \<longleftrightarrow> V q \<or> q \<in> region g p) \<and> n = int (card (region g p)) \<and>
         (tb \<longleftrightarrow> borders g (region g p) BLACK) \<and> (tw \<longleftrightarrow> borders g (region g p) WHITE)"
proof -
  have pR: "p \<in> region g p" by (simp add: region_def)
  then have nV: "\<not> V p" using ctx(3) by blast
  have D0: "newMarks V (V(p := True)) = {p}" using nV by (auto simp: newMarks_def)
  have "floodOuter g V p ([p], V(p := True), 1, False, False)"
    unfolding floodOuter_def prod.case D0
    by (simp add: floodBase_def D0 pR seenAround_def touchAround_def)
  from flood_outer[OF this ctx] res have out: "floodOuter g V p ([], W, n, tb, tw)"
    by auto
  let ?D = "newMarks V W"
  from out have base: "floodBase g V p [] W n"
    and s: "seenAround g W ?D"
    and tb: "tb \<longleftrightarrow> touchAround g ?D BLACK"
    and tw: "tw \<longleftrightarrow> touchAround g ?D WHITE"
    unfolding floodOuter_def prod.case by simp_all
  from base have b1: "\<forall>q. V q \<longrightarrow> W q" and b2: "?D \<subseteq> region g p"
    and b5: "n = int (card ?D)" and b6: "p \<in> ?D"
    unfolding floodBase_def by blast+
  have "q \<in> ?D" if "(p, q) \<in> (emptyAdj g)\<^sup>*" for q
    using that
  proof (induction rule: rtrancl_induct)
    case base
    show ?case by (rule b6)
  next
    case (step a b)
    from step(2) obtain d where d: "d \<in> set (zip DX DY)" "b = nbr a d"
      and t: "touches g a d EMPTY"
      by (auto simp: emptyAdj_def touches_def)
    from s step(3) d t have "W b" by (auto simp: seenAround_def)
    moreover have "b \<in> region g p" using step(1,2) by (simp add: region_def)
    then have "\<not> V b" using ctx(3) by blast
    ultimately show ?case by (simp add: newMarks_def)
  qed
  then have "region g p \<subseteq> ?D" by (auto simp: region_def)
  with b2 have D: "?D = region g p" by blast
  have W: "\<forall>q. W q \<longleftrightarrow> V q \<or> q \<in> region g p"
    using D b1 by (auto simp: newMarks_def)
  show ?thesis using W b5 tb tw unfolding D by (simp add: touchAround_def borders_def touches_def)
qed

text \<open>
  \<open>flood_region\<close>: started at an empty cell \<open>p\<close> of the board whose region has no mark
  yet, the flood marks exactly the region of \<open>p\<close> and returns its size and whether it
  borders Black and whether it borders White. Its size is at most
  \<^verbatim>\<open>BOARD_SIZE * BOARD_SIZE\<close> (\<open>region_card\<close>), so \<^verbatim>\<open>queue\<close> is never written past its
  end.
\<close>

subsection \<open>The scan\<close>

lemma dirs_neg: "d \<in> set (zip DX DY) \<Longrightarrow> (- fst d, - snd d) \<in> set (zip DX DY)"
  by (auto simp: DX_def DY_def)

lemma emptyAdj_sym: "(a, b) \<in> emptyAdj g \<Longrightarrow> (b, a) \<in> emptyAdj g"
proof -
  assume ab: "(a, b) \<in> emptyAdj g"
  then obtain d where d: "d \<in> set (zip DX DY)" "b = nbr a d" by (auto simp: emptyAdj_def)
  have "a = nbr b (- fst d, - snd d)" using d(2) by (simp add: nbr_def)
  with dirs_neg[OF d(1)] ab show ?thesis by (auto simp: emptyAdj_def)
qed

lemma emptyAdj_rtrancl_sym:
  "(a, b) \<in> (emptyAdj g)\<^sup>* \<Longrightarrow> (b, a) \<in> (emptyAdj g)\<^sup>*"
proof (induction rule: rtrancl_induct)
  case base
  show ?case by simp
next
  case (step y z)
  from emptyAdj_sym[OF step(2)] have zy: "(z, y) \<in> (emptyAdj g)\<^sup>*" by blast
  show ?case by (rule rtrancl_trans[OF zy step(3)])
qed

lemma region_eq: "q \<in> region g p \<Longrightarrow> region g q = region g p"
proof -
  assume "q \<in> region g p"
  then have pq: "(p, q) \<in> (emptyAdj g)\<^sup>*" by (simp add: region_def)
  then have qp: "(q, p) \<in> (emptyAdj g)\<^sup>*" by (rule emptyAdj_rtrancl_sym)
  show ?thesis
    unfolding region_def using pq qp by (auto intro: rtrancl_trans)
qed

lemma closed_rtrancl:
  "(a, b) \<in> (emptyAdj g)\<^sup>* \<Longrightarrow> closedMarks g V \<Longrightarrow> V a \<Longrightarrow> V b"
proof (induction rule: rtrancl_induct)
  case base
  then show ?case by simp
next
  case (step y z)
  then show ?case unfolding closedMarks_def by blast
qed

lemma closed_disjoint:
  assumes "closedMarks g V" "\<not> V p"
  shows "\<forall>q \<in> region g p. \<not> V q"
proof
  fix q assume "q \<in> region g p"
  then have "(q, p) \<in> (emptyAdj g)\<^sup>*"
    by (simp add: region_def emptyAdj_rtrancl_sym)
  from closed_rtrancl[OF this assms(1)] assms(2) show "\<not> V q" by blast
qed

lemma closed_add_region:
  assumes "closedMarks g V" "isValidPosition p" "g p = EMPTY"
    and W: "\<forall>q. W q \<longleftrightarrow> V q \<or> q \<in> region g p"
  shows "closedMarks g W"
proof -
  have v: "isValidPosition q \<and> g q = EMPTY" if "W q" for q
    using that W assms(1) region_valid[of p g q, OF assms(2,3)] unfolding closedMarks_def
    by blast
  have s: "W b" if ab: "W a \<and> (a, b) \<in> emptyAdj g" for a b
  proof (cases "V a")
    case True
    then have "V b" using ab assms(1) unfolding closedMarks_def by blast
    then show ?thesis using W by blast
  next
    case False
    then have "(p, a) \<in> (emptyAdj g)\<^sup>*" using ab W by (simp add: region_def)
    then have "(p, b) \<in> (emptyAdj g)\<^sup>*" using ab by (auto intro: rtrancl_into_rtrancl)
    then show ?thesis using W by (simp add: region_def)
  qed
  show ?thesis unfolding closedMarks_def using v s by blast
qed

lemma region_territory:
  assumes "isValidPosition p" "g p = EMPTY"
  shows "region g p \<inter> territory g c =
     (if borders g (region g p) c \<and> \<not> borders g (region g p) (if c = BLACK then WHITE else BLACK)
      then region g p else {})"
proof -
  have "q \<in> territory g c \<longleftrightarrow>
      borders g (region g p) c \<and> \<not> borders g (region g p) (if c = BLACK then WHITE else BLACK)"
    if "q \<in> region g p" for q
    using region_eq[OF that] region_valid[of p g q, OF assms that]
    by (simp add: territory_def)
  then show ?thesis by auto
qed

lemma territoryCell_inv:
  assumes inv: "scanInv g bp0 wp0 P st" and c: "isValidPosition c"
  shows "scanInv g bp0 wp0 (insert c P) (territoryCell g c st)"
proof -
  obtain V bp wp where st: "st = (V, bp, wp)" by (cases st)
  from inv have cl: "closedMarks g V" and pr: "\<forall>c \<in> P. g c = EMPTY \<longrightarrow> V c"
    and bp: "bp = bp0 + int (card {q. V q \<and> q \<in> territory g BLACK})"
    and wp: "wp = wp0 + int (card {q. V q \<and> q \<in> territory g WHITE})"
    unfolding st scanInv_def prod.case by blast+
  show ?thesis
  proof (cases "g c = EMPTY \<and> \<not> V c")
    case False
    then have "territoryCell g c st = st" unfolding territoryCell_def st by auto
    moreover have "\<forall>x \<in> insert c P. g x = EMPTY \<longrightarrow> V x" using pr False by blast
    ultimately show ?thesis
      unfolding st scanInv_def prod.case using cl bp wp by simp
  next
    case True
    let ?R = "region g c"
    obtain Q W n tb tw where fl: "flood g ([c], V(c := True), 1, False, False) = (Q, W, n, tb, tw)"
      by (cases "flood g ([c], V(c := True), 1, False, False)")
    have dj: "\<forall>q \<in> ?R. \<not> V q" using closed_disjoint[OF cl] True by blast
    from flood_region[OF c _ dj fl] True
    have W: "\<forall>q. W q \<longleftrightarrow> V q \<or> q \<in> ?R" and n: "n = int (card ?R)"
      and tb: "tb \<longleftrightarrow> borders g ?R BLACK" and tw: "tw \<longleftrightarrow> borders g ?R WHITE"
      by blast+
    have clW: "closedMarks g W" using closed_add_region[OF cl c _ W] True by blast
    have cR: "c \<in> ?R" by (simp add: region_def)
    have prW: "\<forall>x \<in> insert c P. g x = EMPTY \<longrightarrow> W x" using pr W cR by blast
    have fin: "finite {q. V q \<and> q \<in> territory g col}" for col
      by (rule finite_subset[OF _ finite_valid]) (use cl in \<open>auto simp: closedMarks_def\<close>)
    have finR: "finite ?R" using region_finite[of c g] c True by blast
    have split: "{q. W q \<and> q \<in> territory g col} =
        {q. V q \<and> q \<in> territory g col} \<union> (?R \<inter> territory g col)" for col
      using W by blast
    have disj: "{q. V q \<and> q \<in> territory g col} \<inter> (?R \<inter> territory g col) = {}" for col
      using dj by blast
    have cardW: "int (card {q. W q \<and> q \<in> territory g col}) =
        int (card {q. V q \<and> q \<in> territory g col}) + int (card (?R \<inter> territory g col))" for col
    proof -
      have f2: "finite (?R \<inter> territory g col)" using finR by blast
      show ?thesis unfolding split using card_Un_disjoint[OF fin f2 disj] by simp
    qed
    have rb: "?R \<inter> territory g BLACK = (if tb \<and> \<not> tw then ?R else {})"
      using region_territory[of c g BLACK] c True tb tw by simp
    have rw: "?R \<inter> territory g WHITE = (if \<not> tb \<and> tw then ?R else {})"
      using region_territory[of c g WHITE] c True tb tw by auto
    have res: "territoryCell g c st =
        (W, bp + (if tb \<and> \<not> tw then n else 0), wp + (if \<not> tb \<and> tw then n else 0))"
      using True by (auto simp: territoryCell_def st fl creditTerritory_def)
    have bp': "bp + (if tb \<and> \<not> tw then n else 0)
        = bp0 + int (card {q. W q \<and> q \<in> territory g BLACK})"
      unfolding cardW rb using bp n by simp
    have wp': "wp + (if \<not> tb \<and> tw then n else 0)
        = wp0 + int (card {q. W q \<and> q \<in> territory g WHITE})"
      unfolding cardW rw using wp n by simp
    show ?thesis
      unfolding res scanInv_def prod.case using clW prW bp' wp' by blast
  qed
qed

lemma territory_fold_inv:
  "scanInv g bp0 wp0 P st \<Longrightarrow> \<forall>c \<in> set cs. isValidPosition c \<Longrightarrow>
     scanInv g bp0 wp0 (P \<union> set cs) (fold (territoryCell g) cs st)"
proof (induction cs arbitrary: P st)
  case Nil
  then show ?case by simp
next
  case (Cons c cs)
  from Cons.prems(2) have c: "isValidPosition c" and cs: "\<forall>c \<in> set cs. isValidPosition c"
    by auto
  from Cons.IH[OF territoryCell_inv[OF Cons.prems(1) c] cs] show ?case by simp
qed

lemma set_allCells: "set allCells = {p. isValidPosition p}"
proof -
  have "p \<in> set allCells \<longleftrightarrow> isValidPosition p" for p
  proof
    assume "p \<in> set allCells"
    then show "isValidPosition p"
      by (auto simp: allCells_def isValidPosition_def)
  next
    assume v: "isValidPosition p"
    have "p = Pos (px p) (py p)" by simp
    with v show "p \<in> set allCells"
      unfolding allCells_def isValidPosition_def
      by (auto intro!: bexI[of _ "py p"] image_eqI[of _ _ "px p"])
  qed
  then show ?thesis by blast
qed

lemma distinct_allCells: "distinct allCells"
  unfolding allCells_def
proof (rule distinct_concat, goal_cases)
  case 1
  have "inj_on (\<lambda>y. map (\<lambda>x. Pos x y) [0..BOARD_SIZE - 1]) (set [0..BOARD_SIZE - 1])"
  proof (rule inj_onI)
    fix y y' assume "map (\<lambda>x. Pos x y) [0..BOARD_SIZE - 1] = map (\<lambda>x. Pos x y') [0..BOARD_SIZE - 1]"
    then have "\<forall>x \<in> set [0..BOARD_SIZE - 1]. Pos x y = Pos x y'" by simp
    then show "y = y'" by (auto simp: BOARD_SIZE_def)
  qed
  then show ?case by (simp add: distinct_map)
next
  case (2 ys)
  then obtain y where "ys = map (\<lambda>x. Pos x y) [0..BOARD_SIZE - 1]" by auto
  moreover have "inj_on (\<lambda>x. Pos x y) (set [0..BOARD_SIZE - 1])" by (rule inj_onI) simp
  ultimately show ?case by (simp add: distinct_map)
next
  case (3 ys zs)
  then obtain y z where "ys = map (\<lambda>x. Pos x y) [0..BOARD_SIZE - 1]"
    "zs = map (\<lambda>x. Pos x z) [0..BOARD_SIZE - 1]" by auto
  with 3(3) show ?case by auto
qed

lemma length_allCells: "length allCells = 361"
  by code_simp

lemma card_valid: "card {p. isValidPosition p} = 361"
  using distinct_card[OF distinct_allCells] by (simp add: set_allCells length_allCells)

lemma region_card:
  assumes "isValidPosition p" "g p = EMPTY"
  shows "card (region g p) \<le> BOARD_SIZE * BOARD_SIZE"
proof -
  have "region g p \<subseteq> {q. isValidPosition q}"
    using region_valid[of p g, OF assms] by blast
  from card_mono[OF finite_valid this] show ?thesis
    by (simp add: card_valid BOARD_SIZE_def)
qed

lemma countStone_fold:
  "fold (countStone g) cs (a, b) =
     (a + int (length (filter (\<lambda>p. g p = BLACK) cs)),
      b + int (length (filter (\<lambda>p. g p = WHITE) cs)))"
  by (induction cs arbitrary: a b) (auto simp: countStone_def)

lemma countStone_allCells:
  "fold (countStone g) allCells (0, 0) =
     (int (card (stonesOf g BLACK)), int (card (stonesOf g WHITE)))"
proof -
  have "length (filter (\<lambda>p. g p = c) allCells) = card (stonesOf g c)" for c
    using distinct_length_filter[OF distinct_allCells, of "\<lambda>p. g p = c"]
    by (simp add: set_allCells stonesOf_def Int_def conj_commute)
  then show ?thesis by (simp add: countStone_fold)
qed

lemma areaPoints_spec:
  "areaPoints g =
     (int (card (stonesOf g BLACK)) + int (card (territory g BLACK)),
      int (card (stonesOf g WHITE)) + int (card (territory g WHITE)))"
proof -
  let ?b = "int (card (stonesOf g BLACK))" and ?w = "int (card (stonesOf g WHITE))"
  have start: "scanInv g ?b ?w {} (noMarks, ?b, ?w)"
    by (simp add: scanInv_def closedMarks_def noMarks_def)
  obtain V bp wp where res: "fold (territoryCell g) allCells (noMarks, ?b, ?w) = (V, bp, wp)"
    by (cases "fold (territoryCell g) allCells (noMarks, ?b, ?w)")
  from territory_fold_inv[OF start, of allCells] res
  have inv: "scanInv g ?b ?w (set allCells) (V, bp, wp)" by (simp add: set_allCells)
  then have cl: "closedMarks g V" and pr: "\<forall>c \<in> set allCells. g c = EMPTY \<longrightarrow> V c"
    and bp: "bp = ?b + int (card {q. V q \<and> q \<in> territory g BLACK})"
    and wp: "wp = ?w + int (card {q. V q \<and> q \<in> territory g WHITE})"
    unfolding scanInv_def prod.case by blast+
  have "{q. V q \<and> q \<in> territory g col} = territory g col" for col
    using pr by (auto simp: set_allCells territory_def)
  with bp wp have "bp = ?b + int (card (territory g BLACK))" "wp = ?w + int (card (territory g WHITE))"
    by simp_all
  then show ?thesis
    by (simp add: areaPoints_def countStone_allCells territoryStart_def res)
qed


text \<open>
  C6. For every board, the points of \<^verbatim>\<open>determineWinner\<close> before the comparison are, for
  each side, the number of its stones, plus the number of cells of the maximal empty
  regions that border stones of that colour only (a region bordering both colours or
  none adds nothing), plus the capture counter of the other side, plus 4 for White
  only; \<^verbatim>\<open>determineWinner\<close> returns the side with the strictly greater total and 0
  when the totals are equal. On a board with no stone and both capture counters 0 (the
  empty 19 by 19 board) it returns \<^verbatim>\<open>WHITE\<close>.
\<close>

theorem determineWinner_scoring:
  "finalPoints b = (specScore b BLACK, specScore b WHITE) \<and>
   determineWinner b = specWinner b \<and>
   ((\<forall>p. isValidPosition p \<longrightarrow> board b p = EMPTY) \<and> blackCaptures b = 0 \<and> whiteCaptures b = 0
      \<longrightarrow> determineWinner b = stoneCode WHITE)"
proof (intro conjI)
  show pts: "finalPoints b = (specScore b BLACK, specScore b WHITE)"
    by (simp add: finalPoints_def specScore_def areaPoints_spec)
  show eq: "determineWinner b = specWinner b"
    by (simp add: determineWinner_def specWinner_def pts Let_def)
  show "(\<forall>p. isValidPosition p \<longrightarrow> board b p = EMPTY) \<and> blackCaptures b = 0 \<and> whiteCaptures b = 0
      \<longrightarrow> determineWinner b = stoneCode WHITE"
  proof
    assume a: "(\<forall>p. isValidPosition p \<longrightarrow> board b p = EMPTY) \<and> blackCaptures b = 0 \<and> whiteCaptures b = 0"
    then have "stonesOf (board b) BLACK = {}" "stonesOf (board b) WHITE = {}"
      by (auto simp: stonesOf_def)
    moreover have "territory (board b) BLACK = {}" "territory (board b) WHITE = {}"
      using a by (auto simp: territory_def borders_def)
    ultimately show "determineWinner b = stoneCode WHITE"
      using a by (simp add: eq specWinner_def specScore_def)
  qed
qed

theorem determineWinner_scoring_witness:
  "board initBoard = emptyGrid \<and> blackCaptures initBoard = 0 \<and> whiteCaptures initBoard = 0 \<and>
   determineWinner initBoard = 2 \<and> specWinner initBoard = 2 \<and>
   specScore (scoreBoard 0) BLACK = 352 \<and> specScore (scoreBoard 0) WHITE = 11 \<and>
   determineWinner (scoreBoard 0) = 1 \<and>
   specScore (scoreBoard 341) BLACK = 352 \<and> specScore (scoreBoard 341) WHITE = 352 \<and>
   determineWinner (scoreBoard 341) = 0 \<and>
   specScore (scoreBoard 342) BLACK = 352 \<and> specScore (scoreBoard 342) WHITE = 353 \<and>
   determineWinner (scoreBoard 342) = 2"
proof -
  have i: "board initBoard = emptyGrid \<and> blackCaptures initBoard = 0 \<and> whiteCaptures initBoard = 0"
    by (simp add: initBoard_def)
  have a: "areaPoints scoreGrid = (352, 7)" by code_simp
  have f: "finalPoints (scoreBoard n) = (352, 11 + n)" for n
    by (simp add: finalPoints_def scoreBoard_def a initBoard_def)
  have s: "specScore (scoreBoard n) BLACK = 352 \<and> specScore (scoreBoard n) WHITE = 11 + n \<and>
      specWinner (scoreBoard n) = determineWinner (scoreBoard n)" for n
    using determineWinner_scoring[of "scoreBoard n"] by (simp add: f)
  have d: "determineWinner (scoreBoard 0) = 1 \<and> determineWinner (scoreBoard 341) = 0 \<and>
      determineWinner (scoreBoard 342) = 2"
    by (simp add: determineWinner_def f stoneCode_def)
  show ?thesis
    using i d s[of 0] s[of 341] s[of 342] determineWinner_scoring[of initBoard]
    by (simp add: emptyGrid_def stoneCode_def)
qed

section \<open>Ko\<close>

subsection \<open>The group search\<close>

lemma nbr_back:
  "d \<in> set (zip DX DY) \<Longrightarrow> \<exists>e \<in> set (zip DX DY). nbr (nbr p d) e = p"
  by (auto simp: DX_def DY_def nbr_def)

lemma nbr_neq: "d \<in> set (zip DX DY) \<Longrightarrow> nbr p d \<noteq> p"
proof
  assume d: "d \<in> set (zip DX DY)" and e: "nbr p d = p"
  from e have "px (nbr p d) = px p" "py (nbr p d) = py p" by simp_all
  then have "fst d = 0" "snd d = 0" by (simp_all add: nbr_def)
  with d show False by (auto simp: DX_def DY_def)
qed

lemma dfs_mono:
  "fst st p \<Longrightarrow> fst (dfsMarkGroup g pos c st) p"
  "fst st p \<Longrightarrow> fst (dfsNeighbours g pos c ds st) p"
proof (induct g pos c st and g pos c ds st rule: dfsMarkGroup_dfsNeighbours.induct)
  case (1 g pos color visited grp)
  then show ?case by simp
next
  case (2 g pos color st)
  then show ?case by simp
next
  case (3 g pos color d ds visited grp)
  then show ?case by (simp add: Let_def)
qed

lemma dfs_start: "fst (dfsMarkGroup g pos c st) pos"
proof -
  obtain v grp where st: "st = (v, grp)" by (cases st)
  show ?thesis unfolding st by (simp add: dfs_mono(2))
qed

lemma dfsNeighbours_skip:
  "\<forall>d \<in> set ds. \<not> (isValidPosition (nbr pos d) \<and> \<not> fst st (nbr pos d) \<and> g (nbr pos d) = c) \<Longrightarrow>
     dfsNeighbours g pos c ds st = st"
proof (induction ds)
  case Nil
  show ?case by simp
next
  case (Cons d ds)
  obtain v grp where st: "st = (v, grp)" by (cases st)
  from Cons.prems have "\<not> (isValidPosition (nbr pos d) \<and> \<not> v (nbr pos d) \<and> g (nbr pos d) = c)"
    by (simp add: st)
  then have "dfsNeighbours g pos c (d # ds) (v, grp) = dfsNeighbours g pos c ds (v, grp)"
    by (auto simp: nbr_def Let_def)
  with Cons show ?case by (simp add: st)
qed

lemma dfs_single:
  assumes "\<not> hasNeighbour g pos c"
  shows "dfsMarkGroup g pos c (v, grp) = (v(pos := True), grp @ [pos])"
proof -
  have "\<forall>d \<in> set (zip DX DY). \<not> (isValidPosition (nbr pos d) \<and>
      \<not> fst (v(pos := True), grp @ [pos]) (nbr pos d) \<and> g (nbr pos d) = c)"
    using assms by (auto simp: hasNeighbour_def)
  from dfsNeighbours_skip[OF this] show ?thesis by (simp only: dfsMarkGroup.simps)
qed


lemma dfs_group_mono:
  "p \<in> set (snd st) \<Longrightarrow> p \<in> set (snd (dfsMarkGroup g pos c st))"
  "p \<in> set (snd st) \<Longrightarrow> p \<in> set (snd (dfsNeighbours g pos c ds st))"
  using dfs_prefix(1)[of g pos c st] dfs_prefix(2)[of g pos c ds st] by auto

lemma dfs_marks_group:
  "fst (dfsMarkGroup g pos c st) p \<Longrightarrow> fst st p \<or> p \<in> set (snd (dfsMarkGroup g pos c st))"
  "fst (dfsNeighbours g pos c ds st) p \<Longrightarrow> fst st p \<or> p \<in> set (snd (dfsNeighbours g pos c ds st))"
proof (induct g pos c st and g pos c ds st rule: dfsMarkGroup_dfsNeighbours.induct)
  case (1 g pos color visited grp)
  let ?r = "dfsNeighbours g pos color (zip DX DY) (visited(pos := True), grp @ [pos])"
  from 1 have "fst ?r p" by simp
  from "1.hyps"[OF this] have "p = pos \<or> visited p \<or> p \<in> set (snd ?r)" by (auto split: if_splits)
  moreover have "pos \<in> set (snd ?r)" by (rule dfs_group_mono(2)) simp
  ultimately show ?case by auto
next
  case (2 g pos color st)
  then show ?case by simp
next
  case (3 g pos color d ds visited grp)
  let ?next = "\<lparr>px = px pos + fst d, py = py pos + snd d\<rparr>"
  show ?case
  proof (cases "isValidPosition ?next \<and> \<not> visited ?next \<and> g ?next = color")
    case True
    let ?st1 = "dfsMarkGroup g ?next color (visited, grp)"
    have eq: "dfsNeighbours g pos color (d # ds) (visited, grp) = dfsNeighbours g pos color ds ?st1"
      using True by (simp add: Let_def del: dfsMarkGroup.simps)
    from "3.prems" have "fst (dfsNeighbours g pos color ds ?st1) p" by (simp only: eq)
    from "3.hyps"(2)[OF refl True this]
    have "fst ?st1 p \<or> p \<in> set (snd (dfsNeighbours g pos color ds ?st1))" .
    moreover have "visited p \<or> p \<in> set (snd ?st1)" if "fst ?st1 p"
      using "3.hyps"(1)[OF refl True that] by simp
    moreover have "p \<in> set (snd (dfsNeighbours g pos color ds ?st1))" if "p \<in> set (snd ?st1)"
      using that by (rule dfs_group_mono(2))
    ultimately show ?thesis unfolding eq by auto
  next
    case False
    have eq: "dfsNeighbours g pos color (d # ds) (visited, grp) = dfsNeighbours g pos color ds (visited, grp)"
      using False by (auto simp: Let_def simp del: dfsMarkGroup.simps)
    from "3.prems" have "fst (dfsNeighbours g pos color ds (visited, grp)) p" by (simp only: eq)
    from "3.hyps"(3)[OF refl False this] show ?thesis unfolding eq .
  qed
qed


lemma dfs_closure:
  "(\<forall>m. fst (dfsMarkGroup g pos c st) m \<and> \<not> fst st m \<longrightarrow>
        closedAt g c (fst (dfsMarkGroup g pos c st)) m)"
  "(\<forall>m. fst (dfsNeighbours g pos c ds st) m \<and> \<not> fst st m \<longrightarrow>
        closedAt g c (fst (dfsNeighbours g pos c ds st)) m) \<and>
   (\<forall>d \<in> set ds. isValidPosition (nbr pos d) \<and> g (nbr pos d) = c \<longrightarrow>
        fst (dfsNeighbours g pos c ds st) (nbr pos d))"
proof (induct g pos c st and g pos c ds st rule: dfsMarkGroup_dfsNeighbours.induct)
  case (1 g pos color visited grp)
  let ?r = "dfsNeighbours g pos color (zip DX DY) (visited(pos := True), grp @ [pos])"
  have eq: "dfsMarkGroup g pos color (visited, grp) = ?r" by simp
  show ?case unfolding eq
  proof (intro allI impI)
    fix m assume m: "fst ?r m \<and> \<not> fst (visited, grp) m"
    show "closedAt g color (fst ?r) m"
    proof (cases "m = pos")
      case True
      then show ?thesis using 1 by (simp add: closedAt_def)
    next
      case False
      then have "\<not> fst (visited(pos := True), grp @ [pos]) m" using m by simp
      with 1 m show ?thesis by blast
    qed
  qed
next
  case (2 g pos color st)
  show ?case by simp
next
  case (3 g pos color d ds visited grp)
  let ?next = "\<lparr>px = px pos + fst d, py = py pos + snd d\<rparr>"
  have nx: "nbr pos d = ?next" by (simp add: nbr_def)
  show ?case
  proof (cases "isValidPosition ?next \<and> \<not> visited ?next \<and> g ?next = color")
    case True
    let ?st1 = "dfsMarkGroup g ?next color (visited, grp)"
    let ?r = "dfsNeighbours g pos color ds ?st1"
    have eq: "dfsNeighbours g pos color (d # ds) (visited, grp) = ?r"
      using True by (simp add: Let_def del: dfsMarkGroup.simps)
    note ih1 = "3.hyps"(1)[OF refl True]
    note ih2 = "3.hyps"(2)[OF refl True]
    have a: "closedAt g color (fst ?r) m" if m: "fst ?r m" "\<not> visited m" for m
    proof (cases "fst ?st1 m")
      case False
      with ih2 m show ?thesis by blast
    next
      case True
      with ih1 m have "closedAt g color (fst ?st1) m" by simp
      then show ?thesis unfolding closedAt_def using dfs_mono(2)[of ?st1] by blast
    qed
    have "fst ?st1 ?next" by (rule dfs_start)
    then have b: "fst ?r (nbr pos d)" unfolding nx by (rule dfs_mono(2))
    show ?thesis unfolding eq using a b ih2 by auto
  next
    case False
    let ?r = "dfsNeighbours g pos color ds (visited, grp)"
    have eq: "dfsNeighbours g pos color (d # ds) (visited, grp) = ?r"
      using False by (auto simp: Let_def simp del: dfsMarkGroup.simps)
    note ih = "3.hyps"(3)[OF refl False]
    have "fst ?r (nbr pos d)" if "isValidPosition (nbr pos d) \<and> g (nbr pos d) = color"
    proof -
      from that False have "visited ?next" unfolding nx by blast
      then have "fst ?r ?next" by (intro dfs_mono(2)) simp
      then show ?thesis unfolding nx .
    qed
    then show ?thesis unfolding eq using ih by auto
  qed
qed

lemma dfs_origin:
  "isValidPosition pos \<Longrightarrow> g pos = c \<Longrightarrow> fst (dfsMarkGroup g pos c st) q \<Longrightarrow> \<not> fst st q \<Longrightarrow>
     q = pos \<or> hasNeighbour g q c"
  "isValidPosition pos \<Longrightarrow> g pos = c \<Longrightarrow> set ds \<subseteq> set (zip DX DY) \<Longrightarrow>
     fst (dfsNeighbours g pos c ds st) q \<Longrightarrow> \<not> fst st q \<Longrightarrow> hasNeighbour g q c"
proof (induct g pos c st and g pos c ds st rule: dfsMarkGroup_dfsNeighbours.induct)
  case (1 g pos color visited grp)
  let ?r = "dfsNeighbours g pos color (zip DX DY) (visited(pos := True), grp @ [pos])"
  show ?case
  proof (cases "q = pos")
    case True
    then show ?thesis by simp
  next
    case False
    have "fst ?r q" using "1.prems"(3) by simp
    moreover have "\<not> fst (visited(pos := True), grp @ [pos]) q" using False "1.prems"(4) by simp
    ultimately have "hasNeighbour g q color"
      using "1.hyps"[OF "1.prems"(1,2) subset_refl] by blast
    then show ?thesis by simp
  qed
next
  case (2 g pos color st)
  then show ?case by simp
next
  case (3 g pos color d ds visited grp)
  let ?next = "\<lparr>px = px pos + fst d, py = py pos + snd d\<rparr>"
  have nx: "nbr pos d = ?next" by (simp add: nbr_def)
  have d: "d \<in> set (zip DX DY)" and ds: "set ds \<subseteq> set (zip DX DY)" using "3.prems"(3) by auto
  show ?case
  proof (cases "isValidPosition ?next \<and> \<not> visited ?next \<and> g ?next = color")
    case True
    let ?st1 = "dfsMarkGroup g ?next color (visited, grp)"
    let ?r = "dfsNeighbours g pos color ds ?st1"
    have eq: "dfsNeighbours g pos color (d # ds) (visited, grp) = ?r"
      using True by (simp add: Let_def del: dfsMarkGroup.simps)
    have r: "fst ?r q" using "3.prems"(4) by (simp only: eq)
    show ?thesis
    proof (cases "fst ?st1 q")
      case False
      from "3.hyps"(2)[OF refl True "3.prems"(1,2) ds r False] show ?thesis .
    next
      case st1: True
      have "\<not> fst (visited, grp) q" using "3.prems"(5) .
      from "3.hyps"(1)[OF refl True _ _ st1 this] True
      have "q = ?next \<or> hasNeighbour g q color" by simp
      moreover have "hasNeighbour g q color" if "q = ?next"
      proof -
        from nbr_back[OF d, of pos] obtain e where e: "e \<in> set (zip DX DY)" "nbr (nbr pos d) e = pos"
          by blast
        then have "nbr q e = pos" using that nx by simp
        with e(1) "3.prems"(1,2) show ?thesis unfolding hasNeighbour_def by (intro bexI[of _ e]) simp_all
      qed
      ultimately show ?thesis by blast
    qed
  next
    case False
    have eq: "dfsNeighbours g pos color (d # ds) (visited, grp) = dfsNeighbours g pos color ds (visited, grp)"
      using False by (auto simp: Let_def simp del: dfsMarkGroup.simps)
    from "3.prems"(4) have "fst (dfsNeighbours g pos color ds (visited, grp)) q" by (simp only: eq)
    from "3.hyps"(3)[OF refl False "3.prems"(1,2) ds this "3.prems"(5)] show ?thesis .
  qed
qed

lemma dfs_colour:
  "g pos = c \<Longrightarrow> p \<in> set (snd (dfsMarkGroup g pos c st)) \<Longrightarrow> p \<in> set (snd st) \<or> g p = c"
  "p \<in> set (snd (dfsNeighbours g pos c ds st)) \<Longrightarrow> p \<in> set (snd st) \<or> g p = c"
proof (induct g pos c st and g pos c ds st rule: dfsMarkGroup_dfsNeighbours.induct)
  case (1 g pos color visited grp)
  let ?r = "dfsNeighbours g pos color (zip DX DY) (visited(pos := True), grp @ [pos])"
  have "p \<in> set (snd ?r)" using "1.prems"(2) by simp
  from "1.hyps"[OF this] "1.prems"(1) show ?case by auto
next
  case (2 g pos color st)
  then show ?case by simp
next
  case (3 g pos color d ds visited grp)
  let ?next = "\<lparr>px = px pos + fst d, py = py pos + snd d\<rparr>"
  show ?case
  proof (cases "isValidPosition ?next \<and> \<not> visited ?next \<and> g ?next = color")
    case True
    let ?st1 = "dfsMarkGroup g ?next color (visited, grp)"
    have eq: "dfsNeighbours g pos color (d # ds) (visited, grp) = dfsNeighbours g pos color ds ?st1"
      using True by (simp add: Let_def del: dfsMarkGroup.simps)
    from "3.prems" have "p \<in> set (snd (dfsNeighbours g pos color ds ?st1))" by (simp only: eq)
    from "3.hyps"(2)[OF refl True this] have "p \<in> set (snd ?st1) \<or> g p = color" .
    moreover have "p \<in> set (snd (visited, grp)) \<or> g p = color" if "p \<in> set (snd ?st1)"
      using "3.hyps"(1)[OF refl True _ that] True by simp
    ultimately show ?thesis by blast
  next
    case False
    have eq: "dfsNeighbours g pos color (d # ds) (visited, grp) = dfsNeighbours g pos color ds (visited, grp)"
      using False by (auto simp: Let_def simp del: dfsMarkGroup.simps)
    from "3.prems" have "p \<in> set (snd (dfsNeighbours g pos color ds (visited, grp)))" by (simp only: eq)
    from "3.hyps"(3)[OF refl False this] show ?thesis .
  qed
qed

lemma dfs_two:
  assumes d: "d \<in> set (zip DX DY)" and n: "isValidPosition (nbr pos d)" "g (nbr pos d) = c"
    "\<not> v (nbr pos d)"
  shows "2 \<le> length (snd (dfsMarkGroup g pos c (v, [])))"
proof -
  let ?r = "dfsMarkGroup g pos c (v, [])"
  let ?s = "dfsNeighbours g pos c (zip DX DY) (v(pos := True), [pos])"
  have eq: "?r = ?s" by simp
  have "fst ?s (nbr pos d)" using dfs_closure(2)[of g pos c "zip DX DY" "(v(pos := True), [pos])"] d n
    by blast
  then have "fst ?r (nbr pos d)" by (simp only: eq)
  from dfs_marks_group(1)[OF this] n(3) have a: "nbr pos d \<in> set (snd ?r)" by simp
  from dfs_prefix(1)[of g pos c "(v, [])"] obtain rest where r: "snd ?r = pos # rest" by auto
  with a nbr_neq[OF d, of pos] have "nbr pos d \<in> set rest" by auto
  then have "rest \<noteq> []" by auto
  with r show ?thesis by (cases rest) auto
qed

subsection \<open>The liberties of a single stone\<close>

lemma finite_emptyNeighbours: "finite (emptyNeighbours g p ds)"
proof -
  have "emptyNeighbours g p ds \<subseteq> nbr p ` set ds" by (auto simp: emptyNeighbours_def)
  then show ?thesis by (rule finite_subset) simp
qed

lemma emptyNeighbours_Cons:
  "emptyNeighbours g p (d # ds) =
     (if isValidPosition (nbr p d) \<and> g (nbr p d) = EMPTY
      then insert (nbr p d) (emptyNeighbours g p ds) else emptyNeighbours g p ds)"
  by (auto simp: emptyNeighbours_def)

lemma libertyStep_fold:
  "fold (libertyStep g p) ds (V, k) = (V', k') \<Longrightarrow>
     (\<forall>x. V' x \<longleftrightarrow> V x \<or> x \<in> emptyNeighbours g p ds) \<and>
     k' = k + int (card (emptyNeighbours g p ds - {x. V x}))"
proof (induction ds arbitrary: V k)
  case Nil
  then show ?case by (auto simp: emptyNeighbours_def)
next
  case (Cons d ds)
  let ?n = "nbr p d"
  let ?N = "emptyNeighbours g p ds"
  have nx: "\<lparr>px = px p + fst d, py = py p + snd d\<rparr> = ?n" by (simp add: nbr_def)
  show ?case
  proof (cases "isValidPosition ?n \<and> g ?n = EMPTY \<and> \<not> V ?n")
    case True
    then have "libertyStep g p d (V, k) = (V(?n := True), k + 1)"
      by (simp add: libertyStep_def Let_def nx)
    with Cons.prems have "fold (libertyStep g p) ds (V(?n := True), k + 1) = (V', k')" by simp
    from Cons.IH[OF this] have
      v: "\<forall>x. V' x \<longleftrightarrow> (V(?n := True)) x \<or> x \<in> ?N"
      and k: "k' = k + 1 + int (card (?N - {x. (V(?n := True)) x}))" by auto
    have e: "emptyNeighbours g p (d # ds) = insert ?n ?N" using True by (simp add: emptyNeighbours_Cons)
    have s: "insert ?n ?N - {x. V x} = insert ?n (?N - {x. (V(?n := True)) x})"
      using True by auto
    have "?n \<notin> ?N - {x. (V(?n := True)) x}" by simp
    then have "card (insert ?n ?N - {x. V x}) = Suc (card (?N - {x. (V(?n := True)) x}))"
      unfolding s using finite_emptyNeighbours[of g p ds] by (intro card_insert_disjoint) auto
    with v k show ?thesis unfolding e by auto
  next
    case False
    then have "libertyStep g p d (V, k) = (V, k)"
      by (auto simp: libertyStep_def Let_def nx)
    with Cons.prems have "fold (libertyStep g p) ds (V, k) = (V', k')" by simp
    from Cons.IH[OF this] have
      v: "\<forall>x. V' x \<longleftrightarrow> V x \<or> x \<in> ?N"
      and k: "k' = k + int (card (?N - {x. V x}))" by auto
    have "emptyNeighbours g p (d # ds) - {x. V x} = ?N - {x. V x}"
      using False by (auto simp: emptyNeighbours_Cons)
    moreover have "\<forall>x. V x \<or> x \<in> emptyNeighbours g p (d # ds) \<longleftrightarrow> V x \<or> x \<in> ?N"
      using False by (auto simp: emptyNeighbours_Cons)
    ultimately show ?thesis using v k by simp
  qed
qed

lemma liberties_single:
  "calculateGroupLiberties g [p] = int (card (emptyNeighbours g p (zip DX DY)))"
proof -
  obtain V k where f: "fold (libertyStep g p) (zip DX DY) (noMarks, 0) = (V, k)"
    by (cases "fold (libertyStep g p) (zip DX DY) (noMarks, 0)")
  from libertyStep_fold[OF f] have "k = int (card (emptyNeighbours g p (zip DX DY)))"
    by (simp add: noMarks_def)
  then show ?thesis by (simp add: calculateGroupLiberties_def f)
qed

lemma liberties_single_zero:
  "calculateGroupLiberties g [p] = 0 \<longleftrightarrow> \<not> hasNeighbour g p EMPTY"
proof -
  have "emptyNeighbours g p (zip DX DY) = {} \<longleftrightarrow> \<not> hasNeighbour g p EMPTY"
    by (auto simp: emptyNeighbours_def hasNeighbour_def)
  then show ?thesis
    using finite_emptyNeighbours[of g p "zip DX DY"] by (simp add: liberties_single)
qed

lemma liberties_single_two:
  assumes "d \<in> set (zip DX DY)" "isValidPosition (nbr p d)" "g (nbr p d) = EMPTY"
    and "e \<in> set (zip DX DY)" "isValidPosition (nbr p e)" "g (nbr p e) = EMPTY"
    and "nbr p d \<noteq> nbr p e"
  shows "2 \<le> calculateGroupLiberties g [p]"
proof -
  have "{nbr p d, nbr p e} \<subseteq> emptyNeighbours g p (zip DX DY)"
    using assms by (auto simp: emptyNeighbours_def)
  from card_mono[OF finite_emptyNeighbours this] assms(7)
  show ?thesis by (simp add: liberties_single)
qed

lemma fold_rows: "fold f (concat xss) s = fold (fold f) xss s"
  by (induction xss arbitrary: s) auto

lemma captureScan_allCells:
  "captureScan color st = fold (\<lambda>p. captureCell color (py p) (px p)) allCells st"
  by (simp add: captureScan_def allCells_def fold_rows fold_map comp_def)

subsection \<open>Dead stones and the capture scan\<close>

lemma captureCell_at:
  "captureCell c (py p) (px p) (g, ko, v, n) =
     (if g p = c \<and> \<not> v p then
        (if calculateGroupLiberties g (snd (dfsMarkGroup g p c (v, []))) = 0
         then (removeGroup (snd (dfsMarkGroup g p c (v, []))) g,
               if length (snd (dfsMarkGroup g p c (v, []))) = 1
               then snd (dfsMarkGroup g p c (v, [])) ! 0 else noPosition,
               fst (dfsMarkGroup g p c (v, [])),
               n + int (length (snd (dfsMarkGroup g p c (v, [])))))
         else (g, ko, fst (dfsMarkGroup g p c (v, [])), n))
      else (g, ko, v, n))"
proof -
  have eq: "\<lparr>px = px p, py = py p\<rparr> = p" by simp
  show ?thesis
    by (simp add: captureCell_def Let_def eq split: prod.splits del: dfsMarkGroup.simps)
qed

lemma captureCell_count:
  "snd (snd (snd st)) \<le> snd (snd (snd (captureCell c (py (p::Position)) (px p) st)))"
proof -
  obtain g ko v n where st: "st = (g, ko, v, n)" by (cases st)
  show ?thesis unfolding st captureCell_at by simp
qed

lemma closedAt_mono: "closedAt g c V m \<Longrightarrow> (\<And>x. V x \<Longrightarrow> W x) \<Longrightarrow> closedAt g c W m"
  unfolding closedAt_def by blast

lemma captureCell_scanK:
  assumes inv: "scanK g0 c st" and c: "c \<noteq> EMPTY" and p: "isValidPosition p"
  shows "scanK g0 c (captureCell c (py p) (px p) st)"
proof -
  obtain g ko v n where st: "st = (g, ko, v, n)" by (cases st)
  from inv have n0: "0 \<le> n"
    and z: "n = 0 \<longrightarrow> g = g0 \<and> (\<forall>m. v m \<longrightarrow> closedAt g0 c v m)"
    and o: "n = 1 \<longrightarrow> (\<exists>p. deadStone g0 p \<and> g0 p = c \<and> g = g0(p := EMPTY))"
    and k: "\<forall>p. g p = g0 p \<or> (g0 p = c \<and> g p = EMPTY)"
    unfolding st scanK_def prod.case by blast+
  show ?thesis
  proof (cases "g p = c \<and> \<not> v p")
    case False
    then have "captureCell c (py p) (px p) st = st" unfolding st captureCell_at by auto
    with inv show ?thesis by simp
  next
    case True
    obtain v' grp where d: "dfsMarkGroup g p c (v, []) = (v', grp)"
      by (cases "dfsMarkGroup g p c (v, [])")
    from dfs_prefix(1)[of g p c "(v, [])"] d obtain rest where grp: "grp = p # rest" by auto
    have mono: "v x \<Longrightarrow> v' x" for x using dfs_mono(1)[of "(v, [])" x g p c] d by simp
    have col: "\<forall>x \<in> set grp. g x = c"
      using dfs_colour(1)[of g p c _ "(v, [])"] True d by auto
    have closed: "\<forall>m. v' m \<longrightarrow> closedAt g0 c v' m" if "n = 0"
    proof (intro allI impI)
      fix m assume m: "v' m"
      from that z have g: "g = g0" and cl: "\<forall>m. v m \<longrightarrow> closedAt g0 c v m" by auto
      show "closedAt g0 c v' m"
      proof (cases "v m")
        case True
        with cl have "closedAt g0 c v m" by blast
        then show ?thesis using mono by (rule closedAt_mono)
      next
        case False
        with dfs_closure(1)[of g p c "(v, [])"] m d show ?thesis by (simp add: g)
      qed
    qed
    show ?thesis
    proof (cases "calculateGroupLiberties g grp = 0")
      case False
      then have res: "captureCell c (py p) (px p) st = (g, ko, v', n)"
        unfolding st captureCell_at using True d by simp
      show ?thesis unfolding res scanK_def prod.case using n0 z o k closed by blast
    next
      case lib: True
      then have res: "captureCell c (py p) (px p) st =
          (removeGroup grp g, if length grp = 1 then grp ! 0 else noPosition, v', n + int (length grp))"
        unfolding st captureCell_at using True d by simp
      have a: "0 \<le> n + int (length grp)" using n0 by simp
      have b: "n + int (length grp) \<noteq> 0" using n0 grp by simp
      have k': "\<forall>x. removeGroup grp g x = g0 x \<or> (g0 x = c \<and> removeGroup grp g x = EMPTY)"
      proof
        fix x
        show "removeGroup grp g x = g0 x \<or> (g0 x = c \<and> removeGroup grp g x = EMPTY)"
        proof (cases "x \<in> set grp")
          case False
          then show ?thesis using k by (simp add: removeGroup_apply)
        next
          case True
          with col have "g x = c" by blast
          with k c have "g0 x = c" by metis
          then show ?thesis using True by (simp add: removeGroup_apply)
        qed
      qed
      have o': "\<exists>q. deadStone g0 q \<and> g0 q = c \<and> removeGroup grp g = g0(q := EMPTY)"
        if one: "n + int (length grp) = 1"
      proof -
        from one grp have "n + int (length rest) = 0" by simp
        with n0 have nz: "n = 0" and "length rest = 0" by linarith+
        then have r: "rest = []" by simp
        from nz z have g: "g = g0" and cl: "\<forall>m. v m \<longrightarrow> closedAt g0 c v m" by auto
        have gp: "g0 p = c" using True g by simp
        have noc: "\<not> hasNeighbour g0 p c"
        proof
          assume "hasNeighbour g0 p c"
          then obtain e where e: "e \<in> set (zip DX DY)" "isValidPosition (nbr p e)" "g0 (nbr p e) = c"
            by (auto simp: hasNeighbour_def)
          show False
          proof (cases "v (nbr p e)")
            case False
            from dfs_two[OF e(1,2), of g0 c v] e(3) False have "2 \<le> length grp"
              using d g by simp
            with grp r show False by simp
          next
            case vn: True
            with cl have "closedAt g0 c v (nbr p e)" by blast
            moreover from nbr_back[OF e(1), of p] obtain f where
              "f \<in> set (zip DX DY)" "nbr (nbr p e) f = p" by blast
            ultimately have "v p" using p gp unfolding closedAt_def by metis
            with True show False by simp
          qed
        qed
        have noe: "\<not> hasNeighbour g0 p EMPTY"
          using lib grp r g by (simp add: liberties_single_zero)
        have "deadStone g0 p" unfolding deadStone_def using p gp c noc noe by simp
        moreover have "removeGroup grp g = g0(p := EMPTY)"
          using grp r g by (auto simp: removeGroup_apply fun_eq_iff)
        ultimately show ?thesis using gp by blast
      qed
      show ?thesis unfolding res scanK_def prod.case using a b k' o' by blast
    qed
  qed
qed

lemma fold_reach:
  assumes x: "x \<in> set xs" and A: "set xs \<subseteq> A" and P: "P s"
    and keep: "\<And>a s. a \<in> A \<Longrightarrow> a \<noteq> x \<Longrightarrow> P s \<Longrightarrow> P (f a s)"
    and hit: "\<And>s. P s \<Longrightarrow> Q (f x s)"
    and stay: "\<And>a s. a \<in> A \<Longrightarrow> Q s \<Longrightarrow> Q (f a s)"
  shows "Q (fold f xs s)"
proof -
  have "(x \<in> set xs \<and> P s) \<or> Q s \<Longrightarrow> set xs \<subseteq> A \<Longrightarrow> Q (fold f xs s)" for xs s
  proof (induction xs arbitrary: s)
    case Nil
    then show ?case by simp
  next
    case (Cons a xs)
    have a: "a \<in> A" and xs: "set xs \<subseteq> A" using Cons.prems(2) by auto
    have "(x \<in> set xs \<and> P (f a s)) \<or> Q (f a s)"
    proof (cases "Q s")
      case True
      then show ?thesis using stay[OF a] by blast
    next
      case False
      with Cons.prems(1) have xin: "x \<in> set (a # xs)" and Ps: "P s" by auto
      show ?thesis
      proof (cases "a = x")
        case True
        then show ?thesis using hit[OF Ps] by blast
      next
        case False
        then show ?thesis using xin keep[OF a False Ps] by auto
      qed
    qed
    from Cons.IH[OF this xs] show ?case by simp
  qed
  from this[of xs s] x P A show ?thesis by blast
qed

lemma captureScan_scanK:
  assumes "c \<noteq> EMPTY"
  shows "scanK g0 c (captureScan c (g0, ko0, noMarks, 0))"
  unfolding captureScan_allCells
proof (rule fold_invariant, goal_cases)
  case 1
  show ?case by (simp add: scanK_def noMarks_def)
next
  case (2 a s)
  then show ?case using assms by (intro captureCell_scanK) (auto simp: set_allCells)
qed

lemma captureScan_dead:
  assumes c: "c \<noteq> EMPTY" and q: "deadStone g0 q" "g0 q = c"
  shows "0 < snd (snd (snd (captureScan c (g0, ko0, noMarks, 0))))"
  unfolding captureScan_allCells
proof (rule fold_reach[where x = q and A = "{p. isValidPosition p}"
      and P = "\<lambda>st. scanK g0 c st \<and> (0 < snd (snd (snd st)) \<or> \<not> fst (snd (snd st)) q)"
      and Q = "\<lambda>st. 0 < snd (snd (snd st))"], goal_cases)
  case 1
  show ?case using q by (simp add: set_allCells deadStone_def)
next
  case 2
  show ?case by (simp add: set_allCells)
next
  case 3
  show ?case by (simp add: scanK_def noMarks_def)
next
  case (4 a s)
  obtain g ko v n where st: "s = (g, ko, v, n)" by (cases s)
  from 4 have a: "isValidPosition a" and inv: "scanK g0 c s" by auto
  note inv' = captureCell_scanK[OF inv c a]
  show ?case
  proof (cases "0 < n")
    case True
    then have "0 < snd (snd (snd (captureCell c (py a) (px a) s)))"
      using captureCell_count[of s c a] by (simp add: st)
    with inv' show ?thesis by simp
  next
    case False
    with 4 inv have n: "n = 0" and nv: "\<not> v q" and g: "g = g0"
      by (auto simp: st scanK_def)
    show ?thesis
    proof (cases "g a = c \<and> \<not> v a")
      case False
      then have "captureCell c (py a) (px a) s = s" unfolding st captureCell_at by auto
      with 4 show ?thesis by simp
    next
      case True
      let ?D = "dfsMarkGroup g a c (v, [])"
      have "\<not> fst ?D q"
      proof
        assume "fst ?D q"
        from dfs_origin(1)[OF a _ this] True nv have "q = a \<or> hasNeighbour g q c" by simp
        with 4(2) q g show False by (simp add: deadStone_def)
      qed
      moreover from dfs_prefix(1)[of g a c "(v, [])"] have "snd ?D \<noteq> []" by auto
      ultimately have "0 < snd (snd (snd (captureCell c (py a) (px a) s))) \<or>
          \<not> fst (snd (snd (captureCell c (py a) (px a) s))) q"
        unfolding st captureCell_at using True n by simp
      with inv' show ?thesis by simp
    qed
  qed
next
  case (5 s)
  obtain g ko v n where st: "s = (g, ko, v, n)" by (cases s)
  from 5 have inv: "scanK g0 c s" by simp
  show ?case
  proof (cases "0 < n")
    case True
    then show ?thesis using captureCell_count[of s c q] by (simp add: st)
  next
    case False
    with 5 inv have n: "n = 0" and nv: "\<not> v q" and g: "g = g0"
      by (auto simp: st scanK_def)
    have d: "dfsMarkGroup g q c (v, []) = (v(q := True), [q])"
      using dfs_single[of g q c v "[]"] q g by (simp add: deadStone_def)
    have "calculateGroupLiberties g [q] = 0"
      using q g by (simp add: liberties_single_zero deadStone_def)
    then show ?thesis unfolding st captureCell_at d using q g nv n by simp
  qed
next
  case (6 a s)
  then show ?case using captureCell_count[of s c a] by simp
qed

subsection \<open>No dead stone on the boards of a game\<close>

lemma captureDeadStones_scan:
  assumes "captureDeadStones b c = (b', n)"
  shows "\<exists>ko v. captureScan c (board b, koPosition b, noMarks, 0) = (board b', ko, v, n)"
proof -
  obtain g ko v m where sc: "captureScan c (board b, koPosition b, noMarks, 0) = (g, ko, v, m)"
    by (cases "captureScan c (board b, koPosition b, noMarks, 0)")
  have "board b' = g" "n = m"
    using assms by (auto simp: captureDeadStones_def sc Let_def split: if_splits)
  with sc show ?thesis by simp
qed

lemma captureLoop_grid:
  "captureLoop b t = (b', t') \<Longrightarrow>
     (\<forall>p. board b' p = board b p \<or>
          (board b p = (if currentPlayer b = BLACK then WHITE else BLACK) \<and> board b' p = EMPTY)) \<and>
     (\<forall>q. deadStone (board b') q \<longrightarrow>
          board b' q \<noteq> (if currentPlayer b = BLACK then WHITE else BLACK)) \<and>
     (t' = t + 1 \<longrightarrow>
        (\<exists>p. deadStone (board b) p \<and>
             board b p = (if currentPlayer b = BLACK then WHITE else BLACK) \<and>
             board b' = (board b)(p := EMPTY)))"
proof (induction b t arbitrary: b' t' rule: captureLoop.induct)
  case (1 b t)
  let ?opp = "if currentPlayer b = BLACK then WHITE else BLACK"
  obtain b1 n where cd: "captureDeadStones b ?opp = (b1, n)"
    by (cases "captureDeadStones b ?opp")
  have opp: "?opp \<noteq> EMPTY" by simp
  from captureDeadStones_scan[OF cd] obtain ko v where
    sc: "captureScan ?opp (board b, koPosition b, noMarks, 0) = (board b1, ko, v, n)" by blast
  from captureScan_scanK[OF opp, of "board b" "koPosition b"] sc
  have n0: "0 \<le> n"
    and z: "n = 0 \<longrightarrow> board b1 = board b"
    and o: "n = 1 \<longrightarrow> (\<exists>p. deadStone (board b) p \<and> board b p = ?opp \<and> board b1 = (board b)(p := EMPTY))"
    and k: "\<forall>p. board b1 p = board b p \<or> (board b p = ?opp \<and> board b1 p = EMPTY)"
    by (simp_all add: scanK_def)
  have p1: "currentPlayer b1 = currentPlayer b" using captureDeadStones_fields[OF cd] by simp
  show ?case
  proof (cases "0 < n")
    case True
    then have rec: "captureLoop b1 (t + n) = (b', t')"
      using "1.prems" cd by (subst (asm) captureLoop.simps) (simp add: Let_def)
    note ih = "1.IH"[OF refl refl cd[symmetric] refl True rec, unfolded p1]
    note res = captureLoop_result[OF rec]
    have a: "\<forall>p. board b' p = board b p \<or> (board b p = ?opp \<and> board b' p = EMPTY)"
    proof
      fix p
      from ih have "board b' p = board b1 p \<or> (board b1 p = ?opp \<and> board b' p = EMPTY)" by blast
      moreover from k have "board b1 p = board b p \<or> (board b p = ?opp \<and> board b1 p = EMPTY)" by blast
      ultimately show "board b' p = board b p \<or> (board b p = ?opp \<and> board b' p = EMPTY)"
        using opp by metis
    qed
    have c: "t' = t + 1 \<longrightarrow>
        (\<exists>p. deadStone (board b) p \<and> board b p = ?opp \<and> board b' = (board b)(p := EMPTY))"
    proof
      assume "t' = t + 1"
      with res True have "n = 1" "t' = t + n" by auto
      with res have "board b' = board b1" by auto
      with o \<open>n = 1\<close> show "\<exists>p. deadStone (board b) p \<and> board b p = ?opp \<and>
          board b' = (board b)(p := EMPTY)" by auto
    qed
    from ih a c show ?thesis by blast
  next
    case False
    then have e: "b' = b1" "t' = t + n"
      using "1.prems" cd by (subst (asm) captureLoop.simps, simp add: Let_def)+
    have nz: "n = 0" using False n0 by simp
    have b: "\<forall>q. deadStone (board b1) q \<longrightarrow> board b1 q \<noteq> ?opp"
    proof (intro allI impI notI)
      fix q assume "deadStone (board b1) q" "board b1 q = ?opp"
      then have "deadStone (board b) q" "board b q = ?opp" using z nz by simp_all
      from captureScan_dead[OF opp this, of "koPosition b"] sc nz show False by simp
    qed
    show ?thesis unfolding e using k b nz by simp
  qed
qed

lemma hasNeighbour_update:
  assumes "\<forall>e \<in> set (zip DX DY). nbr q e \<noteq> p"
  shows "hasNeighbour (g(p := s)) q c \<longleftrightarrow> hasNeighbour g q c"
  using assms unfolding hasNeighbour_def by auto

lemma not_suicide_liberty:
  assumes v: "isValidMove b pos" and m: "currentPlayer b \<noteq> EMPTY"
    and lone: "\<not> hasNeighbour ((board b)(pos := currentPlayer b)) pos (currentPlayer b)"
  shows "hasNeighbour ((board b)(pos := currentPlayer b)) pos EMPTY"
proof (rule ccontr)
  let ?g = "(board b)(pos := currentPlayer b)"
  assume no: "\<not> hasNeighbour ?g pos EMPTY"
  from v have vp: "isValidPosition pos" and e: "board b pos = EMPTY" and ns: "\<not> isSuicideMove b pos"
    by (auto simp: isValidMove_def split: if_splits)
  have d: "dfsMarkGroup ?g pos (currentPlayer b) (noMarks, []) = (noMarks(pos := True), [pos])"
    using dfs_single[OF lone, of noMarks "[]"] by simp
  have "calculateGroupLiberties ?g [pos] = 0" using no by (simp add: liberties_single_zero)
  then have "isSuicideMove b pos"
    using vp e m d by (simp add: isSuicideMove_def hasLiberty_def Let_def del: dfsMarkGroup.simps)
  with ns show False by simp
qed

lemma placeStone_noDead:
  assumes nd: "noDead (board b)" and m: "currentPlayer b \<noteq> EMPTY"
    and ps: "placeStone b pos = (True, b')"
  shows "noDead (board b')"
proof -
  let ?m = "currentPlayer b"
  let ?opp = "if ?m = BLACK then WHITE else BLACK"
  let ?gp = "(board b)(pos := ?m)"
  have v: "isValidMove b pos" using ps by (auto simp: placeStone_def split: if_splits)
  obtain b4 t where cl: "captureLoop (putStone b pos) 0 = (b4, t)"
    by (cases "captureLoop (putStone b pos) 0")
  have b': "board b' = board b4" using ps v cl by (auto simp: placeStone_def)
  have gp: "board (putStone b pos) = ?gp" "currentPlayer (putStone b pos) = ?m"
    by (simp_all add: putStone_def)
  from captureLoop_grid[OF cl] have
    a: "\<forall>p. board b4 p = ?gp p \<or> (?gp p = ?opp \<and> board b4 p = EMPTY)"
    and nb: "\<forall>q. deadStone (board b4) q \<longrightarrow> board b4 q \<noteq> ?opp"
    unfolding gp by blast+
  have opp: "?opp \<noteq> EMPTY" "?opp \<noteq> ?m" using m by auto
  have colours: "s = EMPTY \<or> s = ?m \<or> s = ?opp" for s using m by (cases s; cases ?m) auto
  have keep: "board b4 p = ?gp p" if "board b4 p \<noteq> EMPTY" for p
    using a[THEN spec, of p] that by blast
  have "\<not> deadStone (board b4) q" for q
  proof
    assume dq: "deadStone (board b4) q"
    then have vq: "isValidPosition q" and ne: "board b4 q \<noteq> EMPTY"
      and nc: "\<not> hasNeighbour (board b4) q (board b4 q)"
      and nE: "\<not> hasNeighbour (board b4) q EMPTY" by (auto simp: deadStone_def)
    from nb dq have "board b4 q \<noteq> ?opp" by blast
    with ne colours[of "board b4 q"] have q4: "board b4 q = ?m" by blast
    with keep[of q] m have qp: "?gp q = ?m" by simp
    have nbrs: "?gp (nbr q e) = ?opp"
      if e: "e \<in> set (zip DX DY)" "isValidPosition (nbr q e)" for e
    proof -
      from nc nE e q4 have "board b4 (nbr q e) \<noteq> ?m" "board b4 (nbr q e) \<noteq> EMPTY"
        by (auto simp: hasNeighbour_def)
      with colours[of "board b4 (nbr q e)"] have "board b4 (nbr q e) = ?opp" by blast
      with keep[of "nbr q e"] opp show ?thesis by simp
    qed
    show False
    proof (cases "q = pos")
      case True
      have "\<not> hasNeighbour ?gp pos ?m" using nbrs opp True by (auto simp: hasNeighbour_def)
      from not_suicide_liberty[OF v m this] obtain e where
        "e \<in> set (zip DX DY)" "isValidPosition (nbr pos e)" "?gp (nbr pos e) = EMPTY"
        by (auto simp: hasNeighbour_def)
      with nbrs[of e] True opp show False by simp
    next
      case False
      have far: "nbr q e \<noteq> pos" if "e \<in> set (zip DX DY)" "isValidPosition (nbr q e)" for e
        using nbrs[OF that] opp by auto
      have bq: "board b q = ?m" using qp False by simp
      have "board b (nbr q e) = ?opp" if "e \<in> set (zip DX DY)" "isValidPosition (nbr q e)" for e
        using nbrs[OF that] far[OF that] by simp
      then have "deadStone (board b) q"
        unfolding deadStone_def hasNeighbour_def using vq bq m opp by auto
      with nd show False by (simp add: noDead_def)
    qed
  qed
  then show ?thesis by (simp add: noDead_def b')
qed

lemma placeStone_no_ko:
  assumes nd: "noDead (board b)" and m: "currentPlayer b \<noteq> EMPTY"
    and ok: "fst (placeStone b pos)"
  shows "\<not> koCondition b pos"
proof
  let ?m = "currentPlayer b"
  let ?opp = "if ?m = BLACK then WHITE else BLACK"
  let ?gp = "(board b)(pos := ?m)"
  assume kc: "koCondition b pos"
  have v: "isValidMove b pos" using ok by (auto simp: placeStone_def split: if_splits)
  obtain b4 t where cl: "captureLoop (putStone b pos) 0 = (b4, t)"
    by (cases "captureLoop (putStone b pos) 0")
  have t: "t = 1" using kc cl by (simp add: koCondition_def totalCaptured_def)
  have gp: "board (putStone b pos) = ?gp" "currentPlayer (putStone b pos) = ?m"
    by (simp_all add: putStone_def)
  have m4: "currentPlayer b4 = ?m" using captureLoop_fields[OF cl] by (simp add: putStone_def)
  have opp: "?opp \<noteq> EMPTY" "?opp \<noteq> ?m" using m by auto
  from captureLoop_grid[OF cl] t obtain p0 where
    p0: "deadStone ?gp p0" "?gp p0 = ?opp" and g4: "board b4 = ?gp(p0 := EMPTY)"
    unfolding gp by auto
  let ?D = "dfsMarkGroup (board b4) pos ?m (noMarks, [])"
  have len: "length (snd ?D) = 1" and lib: "calculateGroupLiberties (board b4) (snd ?D) = 1"
    using kc cl m4 by (simp_all add: koCondition_def ownGroup_def ownLiberties_def)
  from dfs_prefix(1)[of "board b4" pos ?m "(noMarks, [])"] len have grp: "snd ?D = [pos]"
    by (auto simp: length_Suc_conv)
  have lone4: "\<not> hasNeighbour (board b4) pos ?m"
  proof
    assume "hasNeighbour (board b4) pos ?m"
    then obtain e where e: "e \<in> set (zip DX DY)" "isValidPosition (nbr pos e)"
      "board b4 (nbr pos e) = ?m" by (auto simp: hasNeighbour_def)
    have "\<not> noMarks (nbr pos e)" by (simp add: noMarks_def)
    from dfs_two[where d = e and pos = pos and g = "board b4" and c = ?m and v = noMarks,
        OF e this] len
    show False by simp
  qed
  have lone: "\<not> hasNeighbour ?gp pos ?m"
  proof
    assume "hasNeighbour ?gp pos ?m"
    then obtain e where e: "e \<in> set (zip DX DY)" "isValidPosition (nbr pos e)"
      "?gp (nbr pos e) = ?m" by (auto simp: hasNeighbour_def)
    then have "nbr pos e \<noteq> p0" using p0(2) opp by auto
    then have "board b4 (nbr pos e) = ?m" using e(3) by (simp add: g4)
    with e lone4 show False by (auto simp: hasNeighbour_def)
  qed
  from not_suicide_liberty[OF v m lone] obtain d where
    d: "d \<in> set (zip DX DY)" "isValidPosition (nbr pos d)" "?gp (nbr pos d) = EMPTY"
    by (auto simp: hasNeighbour_def)
  have dne: "nbr pos d \<noteq> p0" using d(3) p0(2) opp by auto
  have d4: "board b4 (nbr pos d) = EMPTY" using d(3) dne by (simp add: g4)
  have vp0: "isValidPosition p0" using p0(1) by (simp add: deadStone_def)
  have p0pos: "p0 \<noteq> pos" using p0(2) opp by auto
  have "\<exists>e \<in> set (zip DX DY). nbr p0 e = pos"
  proof (rule ccontr)
    assume "\<not> (\<exists>e \<in> set (zip DX DY). nbr p0 e = pos)"
    then have far: "\<forall>e \<in> set (zip DX DY). nbr p0 e \<noteq> pos" by blast
    have bp0: "board b p0 = ?opp" using p0(2) p0pos by simp
    have "deadStone (board b) p0"
      using p0(1) p0pos hasNeighbour_update[OF far, of "board b" ?m]
      unfolding deadStone_def by simp
    with nd show False by (simp add: noDead_def)
  qed
  then obtain e where e: "e \<in> set (zip DX DY)" "nbr p0 e = pos" by blast
  from nbr_back[OF e(1), of p0] e(2) obtain f where f: "f \<in> set (zip DX DY)" "nbr pos f = p0"
    by auto
  have f4: "board b4 (nbr pos f) = EMPTY" by (simp add: f g4)
  from liberties_single_two[OF d(1,2) d4 f(1) _ f4] vp0 f(2) dne
  have "2 \<le> calculateGroupLiberties (board b4) [pos]" by simp
  with lib grp show False by simp
qed

lemma initBoard_gameInv: "gameInv initBoard"
  by (simp add: gameInv_def noDead_def deadStone_def chain_def initBoard_def emptyGrid_def)

lemma placeStone_gameInv:
  assumes "gameInv b" "placeStone b pos = (True, b')"
  shows "gameInv b'"
proof -
  have v: "isValidMove b pos" using assms(2) by (auto simp: placeStone_def split: if_splits)
  obtain b4 t where cl: "captureLoop (putStone b pos) 0 = (b4, t)"
    by (cases "captureLoop (putStone b pos) 0")
  have b': "b' = finishMove (markKo pos (b4, t))"
    using assms(2) v cl by (simp add: placeStone_def)
  have f: "prev_chain b4 = prev_chain b" "current b4 = current b" "currentPlayer b4 = currentPlayer b"
    using captureLoop_fields[OF cl] by (simp_all add: putStone_def)
  from assms(1) have m: "currentPlayer b \<noteq> EMPTY" and nd: "noDead (board b)"
    and hs: "\<forall>h \<in> set (chain b). noDead (h_board h)" by (simp_all add: gameInv_def)
  have nd': "noDead (board b')" using placeStone_noDead[OF nd m assms(2)] .
  have m': "currentPlayer b' \<noteq> EMPTY" unfolding b' by (simp add: f)
  have ch: "set (chain b') \<subseteq> insert (createHistoryNode b') (set (chain b))"
    unfolding b' chain_def by (auto simp: f)
  have "noDead (h_board (createHistoryNode b'))" using nd' by (simp add: createHistoryNode_def)
  with hs ch have "\<forall>h \<in> set (chain b'). noDead (h_board h)" by blast
  with m' nd' show ?thesis by (simp add: gameInv_def)
qed

lemma restoreCurrent_gameInv:
  assumes "gameInv b" "set (chain b0) = set (chain b)" "current b0 \<in> set (chain b)"
  shows "gameInv (restoreCurrent b0)"
proof -
  have "chain (restoreCurrent b0) = chain b0" by (simp add: chain_def restoreCurrent_def)
  moreover have "board (restoreCurrent b0) = h_board (current b0)" by (simp add: restoreCurrent_def)
  moreover have "currentPlayer (restoreCurrent b0) \<noteq> EMPTY" by (simp add: restoreCurrent_def)
  ultimately show ?thesis using assms by (simp add: gameInv_def)
qed

lemma undoMove_gameInv:
  assumes "gameInv b" "undoMove b = (True, b')"
  shows "gameInv b'"
proof -
  from assms(2) obtain h hs where p: "prev_chain b = h # hs"
    and b': "b' = restoreCurrent (b\<lparr>current := h, prev_chain := hs,
                                   next_chain := current b # next_chain b\<rparr>)"
    by (auto simp: undoMove_def split: list.splits)
  show ?thesis unfolding b'
    by (rule restoreCurrent_gameInv[OF assms(1)]) (auto simp: chain_def p)
qed

lemma redoMove_gameInv:
  assumes "gameInv b" "redoMove b = (True, b')"
  shows "gameInv b'"
proof -
  from assms(2) obtain h hs where p: "next_chain b = h # hs"
    and b': "b' = restoreCurrent (b\<lparr>current := h, next_chain := hs,
                                   prev_chain := current b # prev_chain b\<rparr>)"
    by (auto simp: redoMove_def split: list.splits)
  show ?thesis unfolding b'
    by (rule restoreCurrent_gameInv[OF assms(1)]) (auto simp: chain_def p)
qed

lemma reachable_gameInv: "reachable b \<Longrightarrow> gameInv b"
  by (induction rule: reachable.induct)
    (auto intro: initBoard_gameInv placeStone_gameInv undoMove_gameInv redoMove_gameInv)

lemma reachable_no_ko:
  assumes "reachable b" "fst (placeStone b pos)"
  shows "\<not> koCondition b pos \<and> \<not> koActive (snd (placeStone b pos))"
proof -
  from reachable_gameInv[OF assms(1)] have "noDead (board b)" "currentPlayer b \<noteq> EMPTY"
    by (simp_all add: gameInv_def)
  from placeStone_no_ko[OF this assms(2)] placeStone_koActive[OF assms(2)] show ?thesis by simp
qed







section \<open>Facts about the search\<close>

lemma getValidMovesInRange_valid:
  "p \<in> set (getValidMovesInRange b cx cy r) \<Longrightarrow> isValidMove b p"
  by (simp add: getValidMovesInRange_def)

lemma nearLastMove_valid: "p \<in> set (nearLastMove b) \<Longrightarrow> isValidMove b p"
  by (auto simp: nearLastMove_def dest: getValidMovesInRange_valid split: if_splits)

lemma addStarPoints_valid:
  assumes "\<forall>p \<in> set ms. isValidMove b p"
  shows "\<forall>p \<in> set (addStarPoints b ms). isValidMove b p"
proof -
  have "\<forall>p \<in> set (fold (addStarPoint b) xs ms). isValidMove b p" for xs
    by (rule fold_invariant) (use assms in \<open>auto simp: addStarPoint_def\<close>)
  then show ?thesis using assms by (simp add: addStarPoints_def)
qed

lemma addAllCells_valid:
  assumes "\<forall>p \<in> set ms. isValidMove b p"
  shows "\<forall>p \<in> set (addAllCells b ms). isValidMove b p"
proof -
  have "\<forall>p \<in> set (fold (addCell b) xs ms). isValidMove b p" for xs
    by (rule fold_invariant) (use assms in \<open>auto simp: addCell_def\<close>)
  then show ?thesis using assms by (simp add: addAllCells_def)
qed

lemma expandCandidates_valid: "p \<in> set (expandCandidates b) \<Longrightarrow> isValidMove b p"
  unfolding expandCandidates_def
  using addAllCells_valid[OF addStarPoints_valid, of "nearLastMove b" b] nearLastMove_valid
  by blast

lemma move_updateAt_setChildren [simp]: "move (updateAt path (setChildren cs) n) = move n"
  by (cases path) (simp_all add: setChildren_def)

lemma move_backpropagate [simp]: "move (backpropagate np r path n) = move n"
  by (cases path) (simp_all add: countVisit_def)

lemma map_move_list_update:
  assumes "move c' = move (cs ! i)"
  shows "map move (cs[i := c']) = map move cs"
proof (cases "i < length cs")
  case True
  with assms show ?thesis by (simp add: map_update list_update_same_conv)
next
  case False
  then have "length cs \<le> i" by arith
  then have "cs[i := c'] = cs" by (rule list_update_beyond)
  then show ?thesis by (rule arg_cong)
qed

lemma children_moves_updateAt:
  "map move (children (updateAt (i # is) (setChildren cs) n)) = map move (children n)"
  by (simp add: map_move_list_update)

lemma children_moves_backpropagate:
  "map move (children (backpropagate np r path n)) = map move (children n)"
  by (cases path) (simp_all add: countVisit_def map_move_list_update)

lemma rootValid_moves:
  "map move (children n') = map move (children n) \<Longrightarrow> rootValid b n \<Longrightarrow> rootValid b n'"
proof -
  assume a: "map move (children n') = map move (children n)" and v: "rootValid b n"
  have "rootValid b m \<longleftrightarrow> list_all (isValidMove b) (map move (children m))" for m
    by (simp add: rootValid_def list_all_iff)
  with a v show ?thesis by simp
qed

lemma replayPath_root: "replayPath (parentChain rootNode []) b = Some b"
  by (simp add: parentChain_def)

lemma expandNode_rootValid:
  assumes "expandNode rootNode path b rng = Some (rootNode', path', rng')" and "rootValid b rootNode"
  shows "rootValid b rootNode'"
proof (cases path)
  case Nil
  then have e: "(rootNode', path', rng') = growNode rootNode [] b (expandCandidates b) rng"
    using assms(1) by (simp add: expandNode_def replayPath_root expandOn_def)
  show ?thesis
  proof (cases "expandCandidates b = []")
    case True
    with e assms(2) show ?thesis by (simp add: growNode_def)
  next
    case False
    with e have "children rootNode' =
        map (\<lambda>mv. createChildNode mv (if player (nodeAt rootNode []) = BLACK then WHITE else BLACK))
          (expandCandidates b)"
      by (simp add: growNode_def setChildren_def)
    then show ?thesis
      using expandCandidates_valid[of _ b]
      by (simp add: rootValid_def list_all_iff createChildNode_def)
  qed
next
  case (Cons i "is")
  from assms(1) obtain tb where
    e: "growNode rootNode (i # is) tb (expandCandidates tb) rng = (rootNode', path', rng')"
    by (auto simp: expandNode_def expandOn_def Cons)
  then have "rootNode' = rootNode \<or>
     (\<exists>cs. rootNode' = updateAt (i # is) (setChildren cs) rootNode)"
    by (auto simp: growNode_def split: if_splits)
  then have "map move (children rootNode') = map move (children rootNode)"
    using children_moves_updateAt by auto
  from rootValid_moves[OF this assms(2)] show ?thesis .
qed

lemma mctsIteration_rootValid:
  assumes "mctsIteration pick b config st = Some st'" and "rootValid b (fst st)"
  shows "rootValid b (fst st')"
proof -
  from assms(1) obtain path rng1 where s: "selectNode pick config (fst st) (snd st) = Some (path, rng1)"
    and 1: "iterExpand b (fst st) (path, rng1) = Some st'"
    by (auto simp: mctsIteration_def Option.bind_eq_Some_conv)
  from 1 obtain r1 p1 g1 where e: "expandNode (fst st) path b rng1 = Some (r1, p1, g1)"
    and 2: "iterSimulate b (r1, p1, g1) = Some st'"
    by (auto simp: iterExpand_def Option.bind_eq_Some_conv)
  from 2 obtain res where "st' = iterBackprop r1 p1 res"
    by (auto simp: iterSimulate_def)
  then have "fst st' = backpropagate (player (nodeAt r1 p1)) (fst res) p1 r1"
    by (simp add: iterBackprop_def)
  with rootValid_moves[OF children_moves_backpropagate expandNode_rootValid[OF e assms(2)]]
  show ?thesis by simp
qed

lemma mctsLoop_rootValid:
  "mctsLoop pick b config startTime clock iterations st = Some (st', n) \<Longrightarrow>
     rootValid b (fst st) \<Longrightarrow> rootValid b (fst st')"
proof (induction pick b config startTime clock iterations st rule: mctsLoop.induct)
  case (1 pick b config startTime clock iterations st)
  show ?case
  proof (cases "iterations < simulationCount config \<and> elapsed (clock 0) startTime < MCTS_TIME_LIMIT")
    case True
    with "1.prems"(1) obtain st1 where i: "mctsIteration pick b config st = Some st1"
      and l: "mctsLoop pick b config startTime (rest clock) (iterations + 1) st1 = Some (st', n)"
      by (subst (asm) mctsLoop.simps) (auto simp: Option.bind_eq_Some_conv)
    from "1.IH"[OF True i l mctsIteration_rootValid[OF i "1.prems"(2)]] show ?thesis .
  next
    case False
    with "1.prems" show ?thesis by (subst (asm) mctsLoop.simps) auto
  qed
qed

lemma selectBestChild_member:
  assumes "selectBestChild n = Some c"
  shows "c \<in> set (children n)"
proof -
  have "case fst (fold bestStep (children n) (None, None)) of
          None \<Rightarrow> True | Some c \<Rightarrow> c \<in> set (children n)"
    by (rule fold_invariant) (auto simp: bestStep_def split: prod.splits if_splits option.splits)
  with assms show ?thesis
    by (auto simp: selectBestChild_def split: if_splits)
qed

lemma runMCTS_rootValid:
  assumes "runMCTS pick b config (createRootNode b) rng clock = Some (st, n)"
  shows "rootValid b (fst st)"
  using mctsLoop_rootValid[OF assms[unfolded runMCTS_def]]
  by (simp add: rootValid_def createRootNode_def)

lemma no_move_search:
  assumes none: "\<forall>p. \<not> isValidMove b p" and ch: "children (fst st) = []"
  shows "\<exists>st' n. mctsLoop pick b config startTime clock iterations st = Some (st', n) \<and>
           children (fst st') = []"
  using none ch
proof (induction pick b config startTime clock iterations st rule: mctsLoop.induct)
  case (1 pick b config startTime clock iterations st)
  note none = "1.prems"(1)
  show ?case
  proof (cases "iterations < simulationCount config \<and> elapsed (clock 0) startTime < MCTS_TIME_LIMIT")
    case False
    then have "mctsLoop pick b config startTime clock iterations st = Some (st, iterations)"
      by (subst mctsLoop.simps) auto
    then show ?thesis using "1.prems"(2) by simp
  next
    case True
    obtain r g where st: "st = (r, g)" by (cases st)
    have r: "children r = []" using "1.prems"(2) st by simp
    have cand: "expandCandidates b = []"
      using expandCandidates_valid[of _ b] none by (cases "expandCandidates b") auto
    have sel: "selectNode pick config r g = Some ([], g)"
      using r by (subst selectNode.simps) simp
    have ex: "expandNode r [] b g = Some (r, [], g)"
      by (simp add: expandNode_def replayPath_root expandOn_def cand growNode_def)
    obtain res where sim: "simulateGame r [] b g = Some res"
      by (simp add: simulateGame_def replayPath_root)
    have it: "mctsIteration pick b config st = Some (iterBackprop r [] res)"
      by (simp add: mctsIteration_def st sel iterExpand_def ex iterSimulate_def sim)
    have c: "children (fst (iterBackprop r [] res)) = []"
      using r by (simp add: iterBackprop_def countVisit_def)
    from "1.IH"[OF True it none c] obtain st' n where
      "mctsLoop pick b config startTime (rest clock) (iterations + 1) (iterBackprop r [] res)
         = Some (st', n)" "children (fst st') = []" by blast
    moreover have "mctsLoop pick b config startTime clock iterations st =
        mctsLoop pick b config startTime (rest clock) (iterations + 1) (iterBackprop r [] res)"
      using True it by (subst mctsLoop.simps) simp
    ultimately show ?thesis by simp
  qed
qed

lemma no_move_sentinel:
  assumes "\<forall>p. \<not> isValidMove b p"
  shows "\<exists>n. findBestMove pick b config rng clock = Some (noPosition, n)"
proof -
  have op: "filter (isValidMove b) openingPoints = []" using assms by (simp add: filter_empty_conv)
  have lg: "getLegalMoves b = []" using assms by (simp add: getLegalMoves_def filter_empty_conv)
  have nr: "getValidMovesInRange b cx cy r = []" for cx cy r
    using getValidMovesInRange_valid[of _ b cx cy r] assms
    by (cases "getValidMovesInRange b cx cy r") auto
  from no_move_search[OF assms, of "(createRootNode b, rng)" pick config "clock 0" "rest clock" 0]
  obtain st' n where run: "runMCTS pick b config (createRootNode b) rng clock = Some (st', n)"
    and c: "children (fst st') = []"
    by (auto simp: runMCTS_def createRootNode_def)
  have sb: "selectBestChild (fst st') = None" using c by (simp add: selectBestChild_def)
  show ?thesis
    by (cases "0 \<le> px (lastMove b) \<and> 0 \<le> py (lastMove b)")
      (simp_all add: findBestMove_def legalOpenings_def op lg run pickNear_def sb nr)
qed

lemma cornerFight_diverges:
  "case playMoves cornerFight initBoard of
     None \<Rightarrow> False
   | Some b \<Rightarrow> (case expandTwice b draws of None \<Rightarrow> False | Some e \<Rightarrow> replayDiverges b e)"
  by code_simp

section \<open>The opening move\<close>

lemma placeStone_freshInv:
  assumes "freshInv b" "placeStone b pos = (True, b')"
  shows "freshInv b'"
proof -
  have v: "isValidMove b pos" using assms(2) by (auto simp: placeStone_def split: if_splits)
  then have vp: "isValidPosition pos" by (auto simp: isValidMove_def split: if_splits)
  obtain b4 t where cl: "captureLoop (putStone b pos) 0 = (b4, t)"
    by (cases "captureLoop (putStone b pos) 0")
  have b': "b' = finishMove (markKo pos (b4, t))"
    using assms(2) v cl by (simp add: placeStone_def)
  have f: "prev_chain b4 = prev_chain b" "current b4 = current b" "lastMove b4 = pos"
    using captureLoop_fields[OF cl] by (simp_all add: putStone_def)
  have l: "\<not> noLastMove (lastMove b')"
    unfolding b' using vp f by (simp add: noLastMove_def isValidPosition_def)
  have ch: "set (chain b') \<subseteq> insert (createHistoryNode b') (set (chain b))"
    unfolding b' chain_def by (auto simp: f)
  have "\<not> noLastMove (h_lastMove (createHistoryNode b'))"
    using l by (simp add: createHistoryNode_def)
  with assms(1) ch have "\<forall>h \<in> set (chain b'). noLastMove (h_lastMove h) \<longrightarrow> h_board h = emptyGrid"
    unfolding freshInv_def by blast
  with l show ?thesis by (simp add: freshInv_def)
qed

lemma restoreCurrent_freshInv:
  assumes "freshInv b" "set (chain b0) = set (chain b)" "current b0 \<in> set (chain b)"
  shows "freshInv (restoreCurrent b0)"
proof -
  have "chain (restoreCurrent b0) = chain b0" by (simp add: chain_def restoreCurrent_def)
  moreover have "board (restoreCurrent b0) = h_board (current b0)"
    "lastMove (restoreCurrent b0) = h_lastMove (current b0)"
    "\<not> koActive (restoreCurrent b0)" by (simp_all add: restoreCurrent_def)
  ultimately show ?thesis using assms by (simp add: freshInv_def)
qed

lemma undoMove_freshInv:
  assumes "freshInv b" "undoMove b = (True, b')"
  shows "freshInv b'"
proof -
  from assms(2) obtain h hs where p: "prev_chain b = h # hs"
    and b': "b' = restoreCurrent (b\<lparr>current := h, prev_chain := hs,
                                   next_chain := current b # next_chain b\<rparr>)"
    by (auto simp: undoMove_def split: list.splits)
  show ?thesis unfolding b'
    by (rule restoreCurrent_freshInv[OF assms(1)]) (auto simp: chain_def p)
qed

lemma redoMove_freshInv:
  assumes "freshInv b" "redoMove b = (True, b')"
  shows "freshInv b'"
proof -
  from assms(2) obtain h hs where p: "next_chain b = h # hs"
    and b': "b' = restoreCurrent (b\<lparr>current := h, next_chain := hs,
                                   prev_chain := current b # prev_chain b\<rparr>)"
    by (auto simp: redoMove_def split: list.splits)
  show ?thesis unfolding b'
    by (rule restoreCurrent_freshInv[OF assms(1)]) (auto simp: chain_def p)
qed

lemma reachable_freshInv: "reachable b \<Longrightarrow> freshInv b"
proof (induction rule: reachable.induct)
  case init
  show ?case by (simp add: freshInv_def chain_def initBoard_def)
qed (auto intro: placeStone_freshInv undoMove_freshInv redoMove_freshInv)

lemma valid_neighbour:
  assumes "isValidPosition q"
  shows "\<exists>d \<in> set (zip DX DY). isValidPosition (nbr q d)"
proof (cases "1 \<le> px q")
  case True
  then have "isValidPosition (nbr q (-1, 0))"
    using assms by (simp add: isValidPosition_def nbr_def)
  then show ?thesis by (intro bexI[of _ "(-1, 0)"]) (simp_all add: DX_def DY_def)
next
  case False
  then have "isValidPosition (nbr q (1, 0))"
    using assms by (simp add: isValidPosition_def nbr_def BOARD_SIZE_def)
  then show ?thesis by (intro bexI[of _ "(1, 0)"]) (simp_all add: DX_def DY_def)
qed

lemma emptyGrid_valid:
  assumes e: "board b = emptyGrid" and k: "\<not> koActive b" and q: "isValidPosition q"
  shows "isValidMove b q"
proof -
  have ns: "\<not> isSuicideMove b q"
  proof (cases "currentPlayer b = EMPTY")
    case True
    then show ?thesis using q by (simp add: isSuicideMove_def hasLiberty_def)
  next
    case False
    let ?g = "(board b)(q := currentPlayer b)"
    have nb: "?g (nbr q d) = EMPTY" if "d \<in> set (zip DX DY)" for d
      using nbr_neq[OF that, of q] e by (simp add: emptyGrid_def)
    have lone: "\<not> hasNeighbour ?g q (currentPlayer b)"
      using nb False by (auto simp: hasNeighbour_def)
    have d: "dfsMarkGroup ?g q (currentPlayer b) (noMarks, []) = (noMarks(q := True), [q])"
      using dfs_single[OF lone, of noMarks "[]"] by simp
    have "hasNeighbour ?g q EMPTY"
      using valid_neighbour[OF q] nb by (auto simp: hasNeighbour_def)
    then have "calculateGroupLiberties ?g [q] \<noteq> 0" by (simp add: liberties_single_zero)
    then have "0 < calculateGroupLiberties ?g [q]" by (simp add: liberties_single)
    then show ?thesis
      using q False d by (simp add: isSuicideMove_def hasLiberty_def del: dfsMarkGroup.simps)
  qed
  show ?thesis using e k q ns by (simp add: isValidMove_def isKoMove_def emptyGrid_def)
qed

lemma openingPoints_valid: "\<forall>p \<in> set openingPoints. isValidPosition p"
  by (simp add: openingPoints_def isValidPosition_def BOARD_SIZE_def)

lemma openingPoints_distinct: "distinct openingPoints \<and> length openingPoints = 9"
  by (simp add: openingPoints_def BOARD_SIZE_def)


text \<open>
  C8. On every board of a game whose last move is the sentinel (a negative
  coordinate: no move was played, or every move was undone) the grid is empty, all
  nine opening points (the centre and the eight star points, nine distinct points)
  are legal, and \<^verbatim>\<open>findBestMove\<close> makes no pass of the search loop and returns the
  opening point at index \<^verbatim>\<open>rand()\<close> modulo 9 in their list: a legal opening point,
  and each of the nine is returned for some draw.
\<close>

theorem findBestMove_opening:
  assumes r: "reachable b" and l: "px (lastMove b) < 0 \<or> py (lastMove b) < 0"
  shows "board b = emptyGrid \<and>
         legalOpenings b = openingPoints \<and> distinct openingPoints \<and> length openingPoints = 9 \<and>
         findBestMove pick b config rng clock = Some (openingPoints ! (rng 0 mod 9), 0) \<and>
         openingPoints ! (rng 0 mod 9) \<in> set openingPoints \<and>
         isValidMove b (openingPoints ! (rng 0 mod 9)) \<and>
         (\<forall>p \<in> set openingPoints. \<exists>r. findBestMove pick b config r clock = Some (p, 0))"
proof -
  from reachable_freshInv[OF r] l have e: "board b = emptyGrid" and k: "\<not> koActive b"
    by (simp_all add: freshInv_def noLastMove_def)
  have all: "\<forall>p \<in> set openingPoints. isValidMove b p"
    using emptyGrid_valid[OF e k] openingPoints_valid by blast
  then have lo: "legalOpenings b = openingPoints" by (simp add: legalOpenings_def)
  note dl = openingPoints_distinct
  have ne: "openingPoints \<noteq> []" using dl by auto
  have res: "findBestMove pick b config r clock = Some (openingPoints ! (r 0 mod 9), 0)" for r
    using l ne dl by (simp add: findBestMove_def lo)
  have m: "openingPoints ! (rng 0 mod 9) \<in> set openingPoints" using dl by (simp add: nth_mem)
  have ex: "\<forall>p \<in> set openingPoints. \<exists>r. findBestMove pick b config r clock = Some (p, 0)"
  proof
    fix p assume "p \<in> set openingPoints"
    then obtain i where i: "i < length openingPoints" "openingPoints ! i = p"
      by (auto simp: in_set_conv_nth)
    then have "findBestMove pick b config (\<lambda>n. i) clock = Some (p, 0)"
      using dl by (simp add: res)
    then show "\<exists>r. findBestMove pick b config r clock = Some (p, 0)" by blast
  qed
  show ?thesis using e lo dl res m all ex by blast
qed

lemma undone_first_move:
  "\<exists>b. playMoves [Pos 3 3] initBoard = Some b \<and> fst (undoMove b) \<and>
       lastMove (snd (undoMove b)) = noPosition"
proof -
  have "case playMoves [Pos 3 3] initBoard of None \<Rightarrow> False
        | Some b \<Rightarrow> fst (undoMove b) \<and> lastMove (snd (undoMove b)) = noPosition"
    by code_simp
  then show ?thesis by (cases "playMoves [Pos 3 3] initBoard") auto
qed

theorem findBestMove_opening_witness:
  "reachable initBoard \<and> lastMove initBoard = noPosition \<and>
   findBestMove noPick initBoard initAIConfig zeros stillClock = Some (Pos 9 9, 0) \<and>
   Pos 9 9 \<in> set openingPoints \<and> isValidMove initBoard (Pos 9 9) \<and>
   legalOpenings initBoard = openingPoints \<and>
   (\<exists>b. playMoves [Pos 3 3] initBoard = Some b \<and> fst (undoMove b) \<and>
        reachable (snd (undoMove b)) \<and> lastMove (snd (undoMove b)) = noPosition \<and>
        findBestMove noPick (snd (undoMove b)) initAIConfig zeros stillClock = Some (Pos 9 9, 0))"
proof -
  have l: "px (lastMove initBoard) < 0 \<or> py (lastMove initBoard) < 0"
    by (simp add: initBoard_def noPosition_def)
  have v: "openingPoints ! (zeros 0 mod 9) = Pos 9 9"
    by (simp add: openingPoints_def zeros_def BOARD_SIZE_def)
  have n: "lastMove initBoard = noPosition" by (simp add: initBoard_def)
  from undone_first_move obtain b where b: "playMoves [Pos 3 3] initBoard = Some b"
    "fst (undoMove b)" "lastMove (snd (undoMove b)) = noPosition" by blast
  have "reachable b" using playMoves_reachable[OF reachable.init b(1)] .
  moreover have "undoMove b = (True, snd (undoMove b))" using b(2) by (cases "undoMove b") simp
  ultimately have r: "reachable (snd (undoMove b))" by (rule reachable.undo)
  have l': "px (lastMove (snd (undoMove b))) < 0 \<or> py (lastMove (snd (undoMove b))) < 0"
    by (simp add: b(3) noPosition_def)
  from findBestMove_opening[OF r l', of noPick initAIConfig zeros stillClock] v
  have u: "findBestMove noPick (snd (undoMove b)) initAIConfig zeros stillClock = Some (Pos 9 9, 0)"
    by simp
  from findBestMove_opening[OF reachable.init l, of noPick initAIConfig zeros stillClock] v n
  have "reachable initBoard \<and> lastMove initBoard = noPosition \<and>
   findBestMove noPick initBoard initAIConfig zeros stillClock = Some (Pos 9 9, 0) \<and>
   Pos 9 9 \<in> set openingPoints \<and> isValidMove initBoard (Pos 9 9) \<and>
   legalOpenings initBoard = openingPoints"
    using reachable.init by simp
  with b r u show ?thesis by blast
qed

section \<open>The move returned by the search\<close>

text \<open>
  C9, as the claim states it, fails: on a board with no empty point, with the default
  configuration, \<^verbatim>\<open>findBestMove\<close> returns the sentinel (-1,-1), which
  \<^verbatim>\<open>isValidMove\<close> rejects.
\<close>

theorem findBestMove_sentinel_rejected:
  "\<forall>pick rng clock.
     \<exists>n. findBestMove pick fullBoard initAIConfig rng clock = Some (noPosition, n) \<and>
         \<not> isValidMove fullBoard noPosition"
proof -
  have none: "\<forall>p. \<not> isValidMove fullBoard p"
    by (simp add: isValidMove_def fullBoard_def)
  show ?thesis using no_move_sentinel[OF none] none by blast
qed

text \<open>
  C9, amended. Whatever the board and the configuration, a position \<^verbatim>\<open>findBestMove\<close>
  returns is either accepted by \<^verbatim>\<open>isValidMove\<close> on the board it was computed from or
  the sentinel (-1,-1); and the sentinel is returned only when the board has a last
  move and no legal move within one cell of it, or has no last move and no legal move
  at all.
\<close>

theorem findBestMove_valid_or_none:
  assumes "findBestMove pick b config rng clock = Some (pos, n)"
  shows "(pos = noPosition \<or> isValidMove b pos) \<and>
         (pos = noPosition \<longrightarrow>
            (hasLastMove b \<and> nearLastMove b = []) \<or> (\<not> hasLastMove b \<and> getLegalMoves b = []))"
proof -
  let ?op = "filter (isValidMove b) openingPoints"
  have nv: "\<not> isValidMove b noPosition"
    by (simp add: isValidMove_def isValidPosition_def noPosition_def)
  have nth_valid: "isValidMove b (xs ! (k mod length xs))"
    if "xs \<noteq> []" "\<forall>p\<in>set xs. isValidMove b p" for xs k
    using that by (simp add: nth_mem)
  let ?first = "(px (lastMove b) < 0 \<or> py (lastMove b) < 0) \<and> ?op \<noteq> []"
  consider (firstmove) "?first"
    | (near) "\<not> ?first \<and> hasLastMove b"
    | (nolegal) "\<not> ?first \<and> \<not> hasLastMove b \<and> getLegalMoves b = []"
    | (anywhere) "\<not> ?first \<and> \<not> hasLastMove b \<and> getLegalMoves b \<noteq> []"
    by blast
  then show ?thesis
  proof cases
    case firstmove
    then have "pos = ?op ! (rng 0 mod length ?op)"
      using assms by (simp add: findBestMove_def legalOpenings_def)
    moreover have "isValidMove b (?op ! (rng 0 mod length ?op))"
      using firstmove by (intro nth_valid) auto
    ultimately show ?thesis using nv by auto
  next
    case near
    let ?backup = "getValidMovesInRange b (px (lastMove b)) (py (lastMove b)) MCTS_RANGE_SMALL"
    have nb: "nearLastMove b = ?backup" using near by (simp add: nearLastMove_def)
    from assms near obtain r where
      run: "runMCTS pick b config (createRootNode b) rng clock = Some r"
      and p: "(pos, n) = pickNear ?backup r"
      by (auto simp: findBestMove_def legalOpenings_def hasLastMove_def)
    obtain st k where r: "r = (st, k)" by (cases r)
    note rv = runMCTS_rootValid[OF run[unfolded r]]
    show ?thesis
    proof (cases "selectBestChild (fst st)")
      case (Some c)
      with p r have "pos = move c" by (simp add: pickNear_def)
      moreover have "isValidMove b (move c)"
        using selectBestChild_member[OF Some] rv by (simp add: rootValid_def list_all_iff)
      ultimately show ?thesis using nv by auto
    next
      case None
      show ?thesis
      proof (cases "?backup = []")
        case True
        with None p r have "pos = noPosition" by (simp add: pickNear_def)
        with True nb near show ?thesis by simp
      next
        case False
        with None p r have "pos = ?backup ! (snd st 0 mod length ?backup)"
          by (simp add: pickNear_def)
        moreover have "isValidMove b (?backup ! (snd st 0 mod length ?backup))"
          using False getValidMovesInRange_valid by (intro nth_valid) auto
        ultimately show ?thesis using nv by auto
      qed
    qed
  next
    case nolegal
    then have "pos = noPosition" using assms
      by (auto simp: findBestMove_def legalOpenings_def hasLastMove_def split: if_splits)
    with nolegal show ?thesis by simp
  next
    case anywhere
    from assms anywhere obtain r where
      run: "runMCTS pick b config (createRootNode b) rng clock = Some r"
      and p: "(pos, n) = pickAny (getLegalMoves b) r"
      by (auto simp: findBestMove_def legalOpenings_def hasLastMove_def)
    obtain st k where r: "r = (st, k)" by (cases r)
    note rv = runMCTS_rootValid[OF run[unfolded r]]
    show ?thesis
    proof (cases "selectBestChild (fst st)")
      case (Some c)
      with p r have "pos = move c" by (simp add: pickAny_def)
      moreover have "isValidMove b (move c)"
        using selectBestChild_member[OF Some] rv by (simp add: rootValid_def list_all_iff)
      ultimately show ?thesis using nv by auto
    next
      case None
      with p r have "pos = getLegalMoves b ! (snd st 0 mod length (getLegalMoves b))"
        by (simp add: pickAny_def)
      moreover have "isValidMove b (getLegalMoves b ! (snd st 0 mod length (getLegalMoves b)))"
        using anywhere by (intro nth_valid) (auto simp: getLegalMoves_def)
      ultimately show ?thesis using nv by auto
    qed
  qed
qed

theorem findBestMove_valid_or_none_witness:
  "findBestMove noPick clusterBoard (initAIConfig\<lparr>simulationCount := 1\<rparr>) zeros stillClock
     = Some (Pos 6 6, 1) \<and>
   Pos 6 6 \<noteq> noPosition \<and> isValidMove clusterBoard (Pos 6 6)"
proof -
  have r: "findBestMove noPick clusterBoard (initAIConfig\<lparr>simulationCount := 1\<rparr>) zeros stillClock
     = Some (Pos 6 6, 1)" by code_simp
  have "Pos 6 6 \<noteq> noPosition" by (simp add: noPosition_def)
  with findBestMove_valid_or_none[OF r] r show ?thesis by simp
qed

section \<open>The board reconstructed at a node\<close>

text \<open>
  For the root and for a child of the root the reconstruction is the single replay.
\<close>

lemma replayPath_shallow:
  "replayPath [rootNode] b = Some (replayOnce [rootNode] b)"
  "replayPath [node, rootNode] b = Some (replayOnce [node, rootNode] b)"
  by (simp_all add: replayOnce_def applyMoves_def DEFAULT_MAX_DEPTH_def)

text \<open>
  C7 asks that, for every node, the board \<^verbatim>\<open>expandNode\<close> and \<^verbatim>\<open>simulateGame\<close>
  reconstruct be the board got by playing the moves on the path from the root once.
  The code does not do that for a node two levels below the root: after the moves of
  the path it plays the moves of the path to the parent again. Here Black (1,0) and
  White (2,0) are the path; White's move captures the black stones at (0,0) and (1,0),
  so the second \<^verbatim>\<open>placeStone\<close> at (1,0) is legal and succeeds. The tree is the one two
  calls of \<^verbatim>\<open>expandNode\<close> build on the board after Black (0,0), White (0,1),
  Black (10,10), White (1,1).
\<close>

theorem replayPath_not_single_replay:
  "\<exists>b e. playMoves cornerFight initBoard = Some b \<and> expandTwice b draws = Some e \<and>
         replayDiverges b e"
proof -
  from cornerFight_diverges obtain b where b: "playMoves cornerFight initBoard = Some b"
    and 1: "case expandTwice b draws of None \<Rightarrow> False | Some e \<Rightarrow> replayDiverges b e"
    by (cases "playMoves cornerFight initBoard") auto
  from 1 obtain e where "expandTwice b draws = Some e" "replayDiverges b e"
    by (cases "expandTwice b draws") auto
  with b show ?thesis by blast
qed

end
